theory Spec2Isabelle
  imports Main "HOL-Library.Word"
begin

section \<open>Data model of ECS.h\<close>

text \<open>
  \<^verbatim>\<open>getTypeIndex<T>()\<close> is \<^verbatim>\<open>std::type_index(typeid(T))\<close>: one key per C++ type, equal
  keys exactly for equal types. The types that matter here are the two entity events, the
  family \<^verbatim>\<open>OnComponentAssigned<T>\<close> (a distinct type for each \<open>T\<close>) and the host's own
  component and event types, numbered.
\<close>

datatype TypeIndex =
  TOnEntityCreated
| TOnEntityDestroyed
| TOnComponentAssigned TypeIndex
| TUser nat

text \<open>
  Objects live on the heap and are referred to by pointers. A pointer that may be
  \<^verbatim>\<open>nullptr\<close> is a \<open>ptr option\<close>. Reading through a pointer whose object has been
  deallocated is undefined in C++; the model makes it the error \<open>DanglingPointer\<close>
  (\<open>NullPointer\<close> for a null pointer).
  Incrementing a container iterator after its element was erased is the error
  \<open>InvalidatedIterator\<close>.
\<close>

type_synonym ptr = nat

datatype error = NullPointer | DanglingPointer | InvalidatedIterator

text \<open>\<^verbatim>\<open>ComponentHandle<T>\<close> wraps a \<^verbatim>\<open>T*\<close>; it is valid when that is not null.\<close>

type_synonym ComponentHandle = "ptr option"

definition isValid :: "ComponentHandle \<Rightarrow> bool" where
  "isValid component = (component \<noteq> None)"

text \<open>
  \<^verbatim>\<open>class Entity\<close>: the \<^verbatim>\<open>unordered_map<TypeIndex, BaseComponentContainer*>\<close> is an
  association list with one pair per key, \<^verbatim>\<open>size_t id\<close> is a 64-bit word (field \<open>id'\<close>).
  The back pointer \<^verbatim>\<open>world\<close> is left out: the model has one world.
\<close>

record Entity =
  components :: "(TypeIndex \<times> ptr) list"
  id' :: "64 word"
  bPendingDestroy :: bool

text \<open>
  The event structs of namespace \<^verbatim>\<open>Events\<close>, and \<open>UserEvent n x\<close> for a value \<open>x\<close> of the
  host's event type number \<open>n\<close>. \<open>OnComponentAssigned t e h\<close> is the struct
  \<^verbatim>\<open>OnComponentAssigned<T>{entity, component}\<close> with \<open>t\<close> the key of \<open>T\<close>.
\<close>

datatype 'v Event =
  OnEntityCreated ptr
| OnEntityDestroyed ptr
| OnComponentAssigned TypeIndex ptr ComponentHandle
| UserEvent nat 'v

fun getTypeIndex :: "'v Event \<Rightarrow> TypeIndex" where
  "getTypeIndex (OnEntityCreated _) = TOnEntityCreated"
| "getTypeIndex (OnEntityDestroyed _) = TOnEntityDestroyed"
| "getTypeIndex (OnComponentAssigned t _ _) = TOnComponentAssigned t"
| "getTypeIndex (UserEvent n _) = TUser n"

text \<open>
  \<^verbatim>\<open>class World\<close>. \<open>entities\<close> is the \<^verbatim>\<open>vector<Entity*>\<close>, \<open>subscribers\<close> the
  \<^verbatim>\<open>unordered_map<TypeIndex, vector<BaseEventSubscriber*>>\<close> (an association list, in the
  map's iteration order), \<open>lastEntityId\<close> the \<^verbatim>\<open>size_t\<close> counter. \<open>entityHeap\<close> and
  \<open>componentHeap\<close> hold the objects allocated through \<^verbatim>\<open>entAlloc\<close>: entities, and the
  \<^verbatim>\<open>data\<close> of the component containers. The allocator is modelled as handing out the
  addresses \<open>nextPtr\<close>, \<open>nextPtr + 1\<close>, ...; it never fails.

  Two traces make the calls observable: \<open>emitted\<close> lists the events passed to
  \<^verbatim>\<open>World::emit\<close>, \<open>received\<close> the calls \<^verbatim>\<open>sub->receive(this, event)\<close>, both in call
  order. A subscriber's \<^verbatim>\<open>receive\<close> is the host's code; it is modelled as recording the
  call and leaving the world as it is.
\<close>

record 'v World =
  entities :: "ptr list"
  subscribers :: "(TypeIndex \<times> ptr list) list"
  lastEntityId :: "64 word"
  entityHeap :: "ptr \<rightharpoonup> Entity"
  componentHeap :: "ptr \<rightharpoonup> 'v"
  nextPtr :: ptr
  emitted :: "'v Event list"
  received :: "(ptr \<times> 'v Event) list"

text \<open>\<^verbatim>\<open>World(Allocator alloc)\<close>: empty containers, \<^verbatim>\<open>lastEntityId = 0\<close>.\<close>

definition createWorld :: "'v World" where
  "createWorld =
     \<lparr>entities = [], subscribers = [], lastEntityId = 0, entityHeap = Map.empty,
      componentHeap = Map.empty, nextPtr = 1, emitted = [], received = []\<rparr>"

section \<open>Events\<close>

definition receive :: "ptr \<Rightarrow> 'v Event \<Rightarrow> 'v World \<Rightarrow> 'v World" where
  "receive sub event w = w\<lparr>received := received w @ [(sub, event)]\<rparr>"

text \<open>
  \<^verbatim>\<open>World::emit<T>\<close>: look the type up; when found, call \<^verbatim>\<open>receive\<close> on each element of
  the vector, front to back.
\<close>

definition emit :: "'v Event \<Rightarrow> 'v World \<Rightarrow> 'v World" where
  "emit event w =
     (let w1 = w\<lparr>emitted := emitted w @ [event]\<rparr> in
      case map_of (subscribers w1) (getTypeIndex event) of
        None \<Rightarrow> w1
      | Some subList \<Rightarrow> fold (\<lambda>base. receive base event) subList w1)"

text \<open>
  \<^verbatim>\<open>World::subscribe<T>\<close>: a new one-element vector when the type has no entry,
  \<^verbatim>\<open>push_back\<close> on the entry's vector otherwise.
\<close>

definition subscribe :: "TypeIndex \<Rightarrow> ptr \<Rightarrow> 'v World \<Rightarrow> 'v World" where
  "subscribe index subscriber w =
     (case map_of (subscribers w) index of
        None \<Rightarrow> w\<lparr>subscribers := subscribers w @ [(index, [subscriber])]\<rparr>
      | Some subList \<Rightarrow>
          w\<lparr>subscribers :=
              map (\<lambda>(k, l). if k = index then (k, l @ [subscriber]) else (k, l))
                (subscribers w)\<rparr>)"

section \<open>Entities of the world\<close>

text \<open>
  \<^verbatim>\<open>World::create\<close>: pre-increment the counter, allocate and construct the entity,
  \<^verbatim>\<open>push_back\<close>, emit \<^verbatim>\<open>OnEntityCreated\<close>, return the pointer.
\<close>

definition create :: "'v World \<Rightarrow> ptr \<times> 'v World" where
  "create w =
     (let lid = lastEntityId w + 1;
          ent = nextPtr w;
          w1 = w\<lparr>lastEntityId := lid,
                 nextPtr := Suc ent,
                 entityHeap := (entityHeap w)
                   (ent \<mapsto> \<lparr>components = [], id' = lid, bPendingDestroy = False\<rparr>),
                 entities := entities w @ [ent]\<rparr>
      in (ent, emit (OnEntityCreated ent) w1))"

definition getCount :: "'v World \<Rightarrow> nat" where
  "getCount w = length (entities w)"

text \<open>\<^verbatim>\<open>ent->getEntityId()\<close> and \<^verbatim>\<open>ent->isPendingDestroy()\<close>, through the pointer.\<close>

definition getEntityId :: "'v World \<Rightarrow> ptr \<Rightarrow> error + 64 word" where
  "getEntityId w ent =
     (case entityHeap w ent of None \<Rightarrow> Inl DanglingPointer | Some e \<Rightarrow> Inr (id' e))"

definition isPendingDestroy :: "'v World \<Rightarrow> ptr \<Rightarrow> error + bool" where
  "isPendingDestroy w ent =
     (case entityHeap w ent of None \<Rightarrow> Inl DanglingPointer
      | Some e \<Rightarrow> Inr (bPendingDestroy e))"

text \<open>\<^verbatim>\<open>World::getByIndex\<close>: \<^verbatim>\<open>nullptr\<close> out of range.\<close>

definition getByIndex :: "'v World \<Rightarrow> nat \<Rightarrow> ptr option" where
  "getByIndex w idx = (if idx \<ge> getCount w then None else Some (entities w ! idx))"

text \<open>
  \<^verbatim>\<open>allocator_traits::destroy(entAlloc, ent)\<close> runs \<^verbatim>\<open>~Entity\<close>, that is
  \<^verbatim>\<open>removeAll()\<close>: every component container is destroyed and deallocated; then
  \<^verbatim>\<open>deallocate(entAlloc, ent, 1)\<close> frees the entity.
\<close>

definition removeAll_components :: "(TypeIndex \<times> ptr) list \<Rightarrow> (ptr \<rightharpoonup> 'v) \<Rightarrow> (ptr \<rightharpoonup> 'v)" where
  "removeAll_components cs h = fold (\<lambda>pair h'. h'(snd pair := None)) cs h"

definition deallocateEntity :: "ptr \<Rightarrow> 'v World \<Rightarrow> error + 'v World" where
  "deallocateEntity ent w =
     (case entityHeap w ent of
        None \<Rightarrow> Inl DanglingPointer
      | Some e \<Rightarrow>
          Inr (w\<lparr>componentHeap := removeAll_components (components e) (componentHeap w),
                 entityHeap := (entityHeap w)(ent := None)\<rparr>))"

text \<open>
  The three statements that \<^verbatim>\<open>World::destroy\<close> runs when \<^verbatim>\<open>immediate\<close> is set:
  \<^verbatim>\<open>entities.erase(std::remove(..., ent), entities.end())\<close>, then destroy and deallocate.
\<close>

definition eraseAndDeallocate :: "ptr \<Rightarrow> 'v World \<Rightarrow> error + 'v World" where
  "eraseAndDeallocate ent w = deallocateEntity ent (w\<lparr>entities := removeAll ent (entities w)\<rparr>)"

text \<open>\<^verbatim>\<open>ent->bPendingDestroy = true\<close> on the entity \<open>e\<close> read at \<open>ent\<close>.\<close>

definition setPendingDestroy :: "ptr \<Rightarrow> Entity \<Rightarrow> 'v World \<Rightarrow> 'v World" where
  "setPendingDestroy ent e w =
     w\<lparr>entityHeap := (entityHeap w)(ent \<mapsto> e\<lparr>bPendingDestroy := True\<rparr>)\<rparr>"

text \<open>\<^verbatim>\<open>World::destroy(Entity* ent, bool immediate)\<close>.\<close>

definition destroy :: "ptr option \<Rightarrow> bool \<Rightarrow> 'v World \<Rightarrow> error + 'v World" where
  "destroy ent immediate w =
     (case ent of
        None \<Rightarrow> Inr w
      | Some p \<Rightarrow>
          (case entityHeap w p of
             None \<Rightarrow> Inl DanglingPointer
           | Some e \<Rightarrow>
               if bPendingDestroy e then
                 (if immediate then eraseAndDeallocate p w else Inr w)
               else
                 (let w1 = emit (OnEntityDestroyed p) (setPendingDestroy p e w)
                  in if immediate then eraseAndDeallocate p w1 else Inr w1)))"

text \<open>A sequence of \<^verbatim>\<open>destroy\<close> calls on one pointer, one call per flag; it stops at an error.\<close>

fun destroy_calls :: "ptr option \<Rightarrow> bool list \<Rightarrow> 'v World \<Rightarrow> error + 'v World" where
  "destroy_calls ent [] w = Inr w"
| "destroy_calls ent (immediate # rest) w =
     (case destroy ent immediate w of
        Inl x \<Rightarrow> Inl x
      | Inr w1 \<Rightarrow> destroy_calls ent rest w1)"

text \<open>
  The world such a sequence leaves behind: the one after the last call, or, when a call
  reads a freed entity, the one just before that call.
\<close>

fun destroy_trace :: "ptr option \<Rightarrow> bool list \<Rightarrow> 'v World \<Rightarrow> 'v World" where
  "destroy_trace ent [] w = w"
| "destroy_trace ent (immediate # rest) w =
     (case destroy ent immediate w of
        Inl x \<Rightarrow> w
      | Inr w1 \<Rightarrow> destroy_trace ent rest w1)"

text \<open>
  \<^verbatim>\<open>World::cleanup\<close>: \<^verbatim>\<open>std::remove_if\<close> calls the lambda once on each element, front
  to back, and keeps, in order, the elements for which it returned false. The lambda
  frees a pending entity and counts it. (\<open>count\<close> cannot wrap: the vector holds fewer
  than \<open>2^64\<close> pointers.)
\<close>

fun cleanup_loop :: "ptr list \<Rightarrow> 'v World \<Rightarrow> nat \<Rightarrow> error + (ptr list \<times> 'v World \<times> nat)" where
  "cleanup_loop [] w count = Inr ([], w, count)"
| "cleanup_loop (ent # rest) w count =
     (case entityHeap w ent of
        None \<Rightarrow> Inl DanglingPointer
      | Some e \<Rightarrow>
          if bPendingDestroy e then
            (case deallocateEntity ent w of
               Inl x \<Rightarrow> Inl x
             | Inr w1 \<Rightarrow> cleanup_loop rest w1 (count + 1))
          else
            (case cleanup_loop rest w count of
               Inl x \<Rightarrow> Inl x
             | Inr (kept, w1, count1) \<Rightarrow> Inr (ent # kept, w1, count1)))"

definition cleanup :: "'v World \<Rightarrow> error + (bool \<times> 'v World)" where
  "cleanup w =
     (case cleanup_loop (entities w) w 0 of
        Inl x \<Rightarrow> Inl x
      | Inr (kept, w1, count) \<Rightarrow> Inr (count > 0, w1\<lparr>entities := kept\<rparr>))"

text \<open>\<^verbatim>\<open>World::reset\<close>: the loop over \<^verbatim>\<open>entities\<close>, then \<^verbatim>\<open>clear()\<close> and the counter.\<close>

fun reset_loop :: "ptr list \<Rightarrow> 'v World \<Rightarrow> error + 'v World" where
  "reset_loop [] w = Inr w"
| "reset_loop (ent # rest) w =
     (case entityHeap w ent of
        None \<Rightarrow> Inl DanglingPointer
      | Some e \<Rightarrow>
          (let w1 = (if \<not> bPendingDestroy e
                     then emit (OnEntityDestroyed ent) (setPendingDestroy ent e w)
                     else w)
           in case deallocateEntity ent w1 of
                Inl x \<Rightarrow> Inl x
              | Inr w2 \<Rightarrow> reset_loop rest w2))"

definition reset :: "'v World \<Rightarrow> error + 'v World" where
  "reset w =
     (case reset_loop (entities w) w of
        Inl x \<Rightarrow> Inl x
      | Inr w1 \<Rightarrow> Inr (w1\<lparr>entities := [], lastEntityId := 0\<rparr>))"

text \<open>
  \<^verbatim>\<open>World::getById\<close>: the guard on \<^verbatim>\<open>Entity::InvalidEntityId\<close> (0) and on
  \<^verbatim>\<open>lastEntityId\<close>, then the scan.
\<close>

fun getById_loop :: "64 word \<Rightarrow> ptr list \<Rightarrow> 'v World \<Rightarrow> error + ptr option" where
  "getById_loop i [] w = Inr None"
| "getById_loop i (ent # rest) w =
     (case entityHeap w ent of
        None \<Rightarrow> Inl DanglingPointer
      | Some e \<Rightarrow> if id' e = i then Inr (Some ent) else getById_loop i rest w)"

definition getById :: "64 word \<Rightarrow> 'v World \<Rightarrow> error + ptr option" where
  "getById i w =
     (if i = 0 \<or> i > lastEntityId w then Inr None else getById_loop i (entities w) w)"

section \<open>Components of an entity\<close>

text \<open>\<^verbatim>\<open>Entity::has<T>\<close> and the variadic \<^verbatim>\<open>has<T, V, Types...>\<close>, on the entity object.\<close>

definition has :: "Entity \<Rightarrow> TypeIndex \<Rightarrow> bool" where
  "has e index = (map_of (components e) index \<noteq> None)"

fun has_types :: "Entity \<Rightarrow> TypeIndex \<Rightarrow> TypeIndex list \<Rightarrow> bool" where
  "has_types e t [] = has e t"
| "has_types e t (v # types) = (has e t \<and> has_types e v types)"

text \<open>\<^verbatim>\<open>Entity::get<T>\<close>: a handle to the container's data, or the null handle.\<close>

definition get :: "Entity \<Rightarrow> TypeIndex \<Rightarrow> ComponentHandle" where
  "get e index = map_of (components e) index"

text \<open>
  \<^verbatim>\<open>Entity::assign<T>(args...)\<close> on the entity at \<open>this\<close>, with \<open>data\<close> the value
  \<^verbatim>\<open>T(args...)\<close>. Found: assign to the container's \<^verbatim>\<open>data\<close>. Not found: allocate a
  container, construct it, insert it. Both emit \<^verbatim>\<open>OnComponentAssigned<T>\<close> and return
  the handle.
\<close>

definition assign :: "ptr \<Rightarrow> TypeIndex \<Rightarrow> 'v \<Rightarrow> 'v World \<Rightarrow> error + (ComponentHandle \<times> 'v World)" where
  "assign this index data w =
     (case entityHeap w this of
        None \<Rightarrow> Inl DanglingPointer
      | Some e \<Rightarrow>
          (case map_of (components e) index of
             Some container \<Rightarrow>
               (case componentHeap w container of
                  None \<Rightarrow> Inl DanglingPointer
                | Some old \<Rightarrow>
                    (let w1 = w\<lparr>componentHeap := (componentHeap w)(container \<mapsto> data)\<rparr>;
                         handle = Some container
                     in Inr (handle, emit (OnComponentAssigned index this handle) w1)))
           | None \<Rightarrow>
               (let container = nextPtr w;
                    w1 = w\<lparr>nextPtr := Suc container,
                           componentHeap := (componentHeap w)(container \<mapsto> data),
                           entityHeap := (entityHeap w)
                             (this \<mapsto> e\<lparr>components := components e @ [(index, container)]\<rparr>)\<rparr>;
                    handle = Some container
                in Inr (handle, emit (OnComponentAssigned index this handle) w1))))"

text \<open>The value behind a handle: \<^verbatim>\<open>handle.get()\<close>.\<close>

definition handle_value :: "'v World \<Rightarrow> ComponentHandle \<Rightarrow> error + 'v" where
  "handle_value w handle =
     (case handle of
        None \<Rightarrow> Inl DanglingPointer
      | Some c \<Rightarrow> (case componentHeap w c of None \<Rightarrow> Inl DanglingPointer | Some x \<Rightarrow> Inr x))"

section \<open>Iteration views\<close>

text \<open>
  \<^verbatim>\<open>Internal::EntityIterator\<close> and \<^verbatim>\<open>Internal::EntityComponentIterator<Types...>\<close> have
  the same fields (the world pointer is left out). The constructor sets \<^verbatim>\<open>bIsEnd\<close> when
  the index is not below the count.
\<close>

record EntityIterator =
  bIsEnd :: bool
  index :: nat
  bIncludePendingDestroy :: bool

definition EntityIterator_new :: "'v World \<Rightarrow> nat \<Rightarrow> bool \<Rightarrow> bool \<Rightarrow> EntityIterator" where
  "EntityIterator_new w idx isEnd' incl =
     \<lparr>bIsEnd = (if idx \<ge> getCount w then True else isEnd'), index = idx,
      bIncludePendingDestroy = incl\<rparr>"

definition isEnd :: "'v World \<Rightarrow> EntityIterator \<Rightarrow> bool" where
  "isEnd w it = (bIsEnd it \<or> index it \<ge> getCount w)"

text \<open>\<^verbatim>\<open>get()\<close> and \<^verbatim>\<open>operator*\<close>.\<close>

definition get_iter :: "'v World \<Rightarrow> EntityIterator \<Rightarrow> ptr option" where
  "get_iter w it = (if isEnd w it then None else getByIndex w (index it))"

text \<open>\<^verbatim>\<open>operator!=\<close> of two iterators of the same world.\<close>

definition neq_iter :: "'v World \<Rightarrow> EntityIterator \<Rightarrow> EntityIterator \<Rightarrow> bool" where
  "neq_iter w it other = (if isEnd w it then \<not> isEnd w other else index it \<noteq> index other)"

text \<open>
  The condition of the \<^verbatim>\<open>while\<close> loop of \<^verbatim>\<open>EntityIterator::operator++\<close> (and of the
  \<^verbatim>\<open>EntityView\<close> constructor): \<^verbatim>\<open>get() == nullptr || (get()->isPendingDestroy() &&
  !bIncludePendingDestroy)\<close>.
\<close>

definition EntityIterator_skips :: "'v World \<Rightarrow> EntityIterator \<Rightarrow> error + bool" where
  "EntityIterator_skips w it =
     (case get_iter w it of
        None \<Rightarrow> Inr True
      | Some ent \<Rightarrow>
          (case entityHeap w ent of
             None \<Rightarrow> Inl DanglingPointer
           | Some e \<Rightarrow> Inr (bPendingDestroy e \<and> \<not> bIncludePendingDestroy it)))"

function EntityIterator_while :: "'v World \<Rightarrow> EntityIterator \<Rightarrow> error + EntityIterator" where
  "EntityIterator_while w it =
     (if index it < getCount w then
        (case EntityIterator_skips w it of
           Inl x \<Rightarrow> Inl x
         | Inr c \<Rightarrow> if c then EntityIterator_while w (it\<lparr>index := index it + 1\<rparr>) else Inr it)
      else Inr it)"
  by pat_completeness auto
termination
  by (relation "measure (\<lambda>(w, it). getCount w - index it)") auto

text \<open>\<^verbatim>\<open>EntityIterator::operator++\<close>.\<close>

definition EntityIterator_inc :: "'v World \<Rightarrow> EntityIterator \<Rightarrow> error + EntityIterator" where
  "EntityIterator_inc w it =
     (case EntityIterator_while w (it\<lparr>index := index it + 1\<rparr>) of
        Inl x \<Rightarrow> Inl x
      | Inr it1 \<Rightarrow> Inr (if index it1 \<ge> getCount w then it1\<lparr>bIsEnd := True\<rparr> else it1))"

text \<open>
  The loop condition of \<^verbatim>\<open>EntityComponentIterator::operator++\<close>:
  \<^verbatim>\<open>get() == nullptr || !get()->has<Types...>() || (get()->isPendingDestroy() &&
  !bIncludePendingDestroy)\<close>. \<open>Types...\<close> is the first type and the rest.
\<close>

definition EntityComponentIterator_skips ::
    "'v World \<Rightarrow> TypeIndex \<Rightarrow> TypeIndex list \<Rightarrow> EntityIterator \<Rightarrow> error + bool" where
  "EntityComponentIterator_skips w t types it =
     (case get_iter w it of
        None \<Rightarrow> Inr True
      | Some ent \<Rightarrow>
          (case entityHeap w ent of
             None \<Rightarrow> Inl DanglingPointer
           | Some e \<Rightarrow>
               Inr (\<not> has_types e t types \<or> (bPendingDestroy e \<and> \<not> bIncludePendingDestroy it))))"

function EntityComponentIterator_while ::
    "'v World \<Rightarrow> TypeIndex \<Rightarrow> TypeIndex list \<Rightarrow> EntityIterator \<Rightarrow> error + EntityIterator" where
  "EntityComponentIterator_while w t types it =
     (if index it < getCount w then
        (case EntityComponentIterator_skips w t types it of
           Inl x \<Rightarrow> Inl x
         | Inr c \<Rightarrow>
             if c then EntityComponentIterator_while w t types (it\<lparr>index := index it + 1\<rparr>)
             else Inr it)
      else Inr it)"
  by pat_completeness auto
termination
  by (relation "measure (\<lambda>(w, t, types, it). getCount w - index it)") auto

definition EntityComponentIterator_inc ::
    "'v World \<Rightarrow> TypeIndex \<Rightarrow> TypeIndex list \<Rightarrow> EntityIterator \<Rightarrow> error + EntityIterator" where
  "EntityComponentIterator_inc w t types it =
     (case EntityComponentIterator_while w t types (it\<lparr>index := index it + 1\<rparr>) of
        Inl x \<Rightarrow> Inl x
      | Inr it1 \<Rightarrow> Inr (if index it1 \<ge> getCount w then it1\<lparr>bIsEnd := True\<rparr> else it1))"

text \<open>
  The view constructors advance a first iterator that stands on nothing or on an entity
  the view leaves out. \<^verbatim>\<open>EntityComponentView\<close> tests \<^verbatim>\<open>get() == nullptr ||
  (isPendingDestroy() && !includePendingDestroy()) || !has<Types...>()\<close>.
\<close>

definition EntityView_new ::
    "'v World \<Rightarrow> EntityIterator \<Rightarrow> EntityIterator \<Rightarrow> error + (EntityIterator \<times> EntityIterator)" where
  "EntityView_new w first0 lastItr =
     (case EntityIterator_skips w first0 of
        Inl x \<Rightarrow> Inl x
      | Inr c \<Rightarrow>
          if c then (case EntityIterator_inc w first0 of
                       Inl x \<Rightarrow> Inl x
                     | Inr firstItr \<Rightarrow> Inr (firstItr, lastItr))
          else Inr (first0, lastItr))"

definition EntityComponentView_first ::
    "'v World \<Rightarrow> TypeIndex \<Rightarrow> TypeIndex list \<Rightarrow> EntityIterator \<Rightarrow> error + bool" where
  "EntityComponentView_first w t types it =
     (case get_iter w it of
        None \<Rightarrow> Inr True
      | Some ent \<Rightarrow>
          (case entityHeap w ent of
             None \<Rightarrow> Inl DanglingPointer
           | Some e \<Rightarrow>
               Inr ((bPendingDestroy e \<and> \<not> bIncludePendingDestroy it) \<or> \<not> has_types e t types)))"

definition EntityComponentView_new ::
    "'v World \<Rightarrow> TypeIndex \<Rightarrow> TypeIndex list \<Rightarrow> EntityIterator \<Rightarrow> EntityIterator
      \<Rightarrow> error + (EntityIterator \<times> EntityIterator)" where
  "EntityComponentView_new w t types first0 lastItr =
     (case EntityComponentView_first w t types first0 of
        Inl x \<Rightarrow> Inl x
      | Inr c \<Rightarrow>
          if c then (case EntityComponentIterator_inc w t types first0 of
                       Inl x \<Rightarrow> Inl x
                     | Inr firstItr \<Rightarrow> Inr (firstItr, lastItr))
          else Inr (first0, lastItr))"

text \<open>\<^verbatim>\<open>World::all(bool)\<close> and \<^verbatim>\<open>World::each<Types...>(bool)\<close>: the views.\<close>

definition all_view :: "'v World \<Rightarrow> bool \<Rightarrow> error + (EntityIterator \<times> EntityIterator)" where
  "all_view w incl =
     EntityView_new w (EntityIterator_new w 0 False incl)
       (EntityIterator_new w (getCount w) True incl)"

definition each_view ::
    "'v World \<Rightarrow> TypeIndex \<Rightarrow> TypeIndex list \<Rightarrow> bool \<Rightarrow> error + (EntityIterator \<times> EntityIterator)" where
  "each_view w t types incl =
     EntityComponentView_new w t types (EntityIterator_new w 0 False incl)
       (EntityIterator_new w (getCount w) True incl)"

text \<open>
  The range-based \<^verbatim>\<open>for\<close> over a view: \<^verbatim>\<open>for (it = begin(); it != end(); ++it)\<close>, the
  body receiving \<^verbatim>\<open>*it\<close>. \<open>acc\<close> collects the values the body has received. The loop
  need not end for every pair of iterators, so not returning is \<open>None\<close>.
\<close>

partial_function (option) EntityView_for ::
    "'v World \<Rightarrow> EntityIterator \<Rightarrow> EntityIterator \<Rightarrow> ptr option list
      \<Rightarrow> (error + ptr option list) option" where
  "EntityView_for w it lastItr acc =
     (if neq_iter w it lastItr then
        (case EntityIterator_inc w it of
           Inl x \<Rightarrow> Some (Inl x)
         | Inr it1 \<Rightarrow> EntityView_for w it1 lastItr (acc @ [get_iter w it]))
      else Some (Inr acc))"

partial_function (option) EntityComponentView_for ::
    "'v World \<Rightarrow> TypeIndex \<Rightarrow> TypeIndex list \<Rightarrow> EntityIterator \<Rightarrow> EntityIterator
      \<Rightarrow> ptr option list \<Rightarrow> (error + ptr option list) option" where
  "EntityComponentView_for w t types it lastItr acc =
     (if neq_iter w it lastItr then
        (case EntityComponentIterator_inc w t types it of
           Inl x \<Rightarrow> Some (Inl x)
         | Inr it1 \<Rightarrow> EntityComponentView_for w t types it1 lastItr (acc @ [get_iter w it]))
      else Some (Inr acc))"

text \<open>Iterating the views of \<^verbatim>\<open>all\<close> and \<^verbatim>\<open>each\<close>: the entities the loop body sees.\<close>

definition all_visits :: "'v World \<Rightarrow> bool \<Rightarrow> (error + ptr option list) option" where
  "all_visits w incl =
     (case all_view w incl of
        Inl x \<Rightarrow> Some (Inl x)
      | Inr (first0, lastItr) \<Rightarrow> EntityView_for w first0 lastItr [])"

definition each_visits ::
    "'v World \<Rightarrow> TypeIndex \<Rightarrow> TypeIndex list \<Rightarrow> bool \<Rightarrow> (error + ptr option list) option" where
  "each_visits w t types incl =
     (case each_view w t types incl of
        Inl x \<Rightarrow> Some (Inl x)
      | Inr (first0, lastItr) \<Rightarrow> EntityComponentView_for w t types first0 lastItr [])"

text \<open>
  The eager overload \<^verbatim>\<open>each(viewFunc, bIncludePendingDestroy)\<close> calls
  \<^verbatim>\<open>viewFunc(ent, ent->get<Types>()...)\<close> in the loop; \<open>viewFunc_call\<close> is the argument
  list of one call, \<open>each_calls\<close> the calls in order.
\<close>

definition viewFunc_call ::
    "'v World \<Rightarrow> TypeIndex list \<Rightarrow> ptr option \<Rightarrow> error + (ptr \<times> ComponentHandle list)" where
  "viewFunc_call w types ent =
     (case ent of
        None \<Rightarrow> Inl NullPointer
      | Some p \<Rightarrow>
          (case entityHeap w p of
             None \<Rightarrow> Inl DanglingPointer
           | Some e \<Rightarrow> Inr (p, map (get e) types)))"

fun viewFunc_calls ::
    "'v World \<Rightarrow> TypeIndex list \<Rightarrow> ptr option list \<Rightarrow> error + (ptr \<times> ComponentHandle list) list" where
  "viewFunc_calls w types [] = Inr []"
| "viewFunc_calls w types (ent # rest) =
     (case viewFunc_call w types ent of
        Inl x \<Rightarrow> Inl x
      | Inr c \<Rightarrow>
          (case viewFunc_calls w types rest of
             Inl x \<Rightarrow> Inl x
           | Inr cs \<Rightarrow> Inr (c # cs)))"

definition each_calls ::
    "'v World \<Rightarrow> TypeIndex \<Rightarrow> TypeIndex list \<Rightarrow> bool
      \<Rightarrow> (error + (ptr \<times> ComponentHandle list) list) option" where
  "each_calls w t types incl =
     (case each_visits w t types incl of
        None \<Rightarrow> None
      | Some (Inl x) \<Rightarrow> Some (Inl x)
      | Some (Inr ents) \<Rightarrow> Some (viewFunc_calls w (t # types) ents))"

section \<open>Unsubscribing\<close>

text \<open>
  \<^verbatim>\<open>World::unsubscribeAll\<close>: \<^verbatim>\<open>for (auto kv : subscribers)\<close> binds \<open>kv\<close> to a copy of each
  pair. The erase-remove acts on the copy's vector; when that leaves the copy empty,
  \<^verbatim>\<open>subscribers.erase(kv.first)\<close> removes the map's entry, the loop's own iterator is
  the erased one and its increment is undefined.
\<close>

fun unsubscribeAll_loop ::
    "(TypeIndex \<times> ptr list) list \<Rightarrow> ptr \<Rightarrow> 'v World \<Rightarrow> error + 'v World" where
  "unsubscribeAll_loop [] subscriber w = Inr w"
| "unsubscribeAll_loop (kv # rest) subscriber w =
     (let second = removeAll subscriber (snd kv) in
      if length second = 0 then Inl InvalidatedIterator
      else unsubscribeAll_loop rest subscriber w)"

definition unsubscribeAll :: "ptr \<Rightarrow> 'v World \<Rightarrow> error + 'v World" where
  "unsubscribeAll subscriber w = unsubscribeAll_loop (subscribers w) subscriber w"

text \<open>
  \<^verbatim>\<open>World::unsubscribe<T>\<close>. The body computes \<^verbatim>\<open>index\<close> and then reads \<^verbatim>\<open>found\<close>, an
  iterator into \<^verbatim>\<open>subscribers\<close> that nothing in the function declares (\<^verbatim>\<open>subscribe\<close>
  has \<^verbatim>\<open>auto found = subscribers.find(index);\<close> at this place). \<open>found\<close> is therefore a
  parameter here: \<open>None\<close> for \<^verbatim>\<open>subscribers.end()\<close>, \<open>Some k\<close> for the entry of key \<open>k\<close>.
  \<open>subscribers_find\<close> is \<^verbatim>\<open>subscribers.find\<close>.
\<close>

definition subscribers_find :: "'v World \<Rightarrow> TypeIndex \<Rightarrow> TypeIndex option" where
  "subscribers_find w typeIndex =
     (case map_of (subscribers w) typeIndex of None \<Rightarrow> None | Some subList \<Rightarrow> Some typeIndex)"

definition unsubscribe ::
    "TypeIndex option \<Rightarrow> TypeIndex \<Rightarrow> ptr \<Rightarrow> 'v World \<Rightarrow> error + 'v World" where
  "unsubscribe found typeIndex subscriber w =
     (case found of
        None \<Rightarrow> Inr w
      | Some k \<Rightarrow>
          (case map_of (subscribers w) k of
             None \<Rightarrow> Inl InvalidatedIterator
           | Some subList \<Rightarrow>
               (let second = removeAll subscriber subList in
                if length second = 0
                then Inr (w\<lparr>subscribers := filter (\<lambda>kv. fst kv \<noteq> k) (subscribers w)\<rparr>)
                else Inr (w\<lparr>subscribers :=
                            map (\<lambda>(k', l). if k' = k then (k', second) else (k', l))
                              (subscribers w)\<rparr>))))"

section \<open>Observations used in the statements\<close>

text \<open>The vector registered for a type: \<^verbatim>\<open>found->second\<close>, or nothing when there is no entry.\<close>

definition subscribersOf :: "'v World \<Rightarrow> TypeIndex \<Rightarrow> ptr list" where
  "subscribersOf w t = (case map_of (subscribers w) t of None \<Rightarrow> [] | Some subList \<Rightarrow> subList)"

text \<open>
  \<open>n\<close> successive calls of \<^verbatim>\<open>create\<close>: each returned pointer, paired with
  \<^verbatim>\<open>getEntityId()\<close> read through it right after the call, and the final world.
\<close>

fun create_n :: "nat \<Rightarrow> 'v World \<Rightarrow> (ptr \<times> (error + 64 word)) list \<times> 'v World" where
  "create_n 0 w = ([], w)"
| "create_n (Suc n) w =
     (case create w of
        (ent, w1) \<Rightarrow>
          (case create_n n w1 of
             (rest, w2) \<Rightarrow> ((ent, getEntityId w1 ent) # rest, w2)))"

text \<open>
  What the world keeps true of its sequence: no pointer twice, and every pointer to an
  entity that is still allocated.
\<close>

definition entities_valid :: "'v World \<Rightarrow> bool" where
  "entities_valid w =
     (distinct (entities w) \<and> (\<forall>ent \<in> set (entities w). entityHeap w ent \<noteq> None))"

text \<open>Every pointer of the sequence was handed out by the allocator.\<close>

definition entities_fresh :: "'v World \<Rightarrow> bool" where
  "entities_fresh w = (\<forall>ent \<in> set (entities w). ent < nextPtr w)"

text \<open>
  The entities a view is meant to show: those that have all the required components
  (for \<^verbatim>\<open>each\<close>), pending-destroy ones only when the caller included them.
\<close>

definition all_selects :: "'v World \<Rightarrow> bool \<Rightarrow> ptr \<Rightarrow> bool" where
  "all_selects w incl ent =
     (case entityHeap w ent of
        None \<Rightarrow> False
      | Some e \<Rightarrow> incl \<or> \<not> bPendingDestroy e)"

definition each_selects :: "'v World \<Rightarrow> TypeIndex \<Rightarrow> TypeIndex list \<Rightarrow> bool \<Rightarrow> ptr \<Rightarrow> bool" where
  "each_selects w t types incl ent =
     (case entityHeap w ent of
        None \<Rightarrow> False
      | Some e \<Rightarrow> has_types e t types \<and> (incl \<or> \<not> bPendingDestroy e))"

section \<open>Event delivery\<close>

lemma fold_receive:
  "fold (\<lambda>base. receive base ev) l w = w\<lparr>received := received w @ map (\<lambda>b. (b, ev)) l\<rparr>"
  by (induction l arbitrary: w) (simp_all add: receive_def)

lemma emit_fields [simp]:
  "entities (emit ev w) = entities w"
  "subscribers (emit ev w) = subscribers w"
  "lastEntityId (emit ev w) = lastEntityId w"
  "entityHeap (emit ev w) = entityHeap w"
  "componentHeap (emit ev w) = componentHeap w"
  "nextPtr (emit ev w) = nextPtr w"
  by (simp_all add: emit_def Let_def fold_receive split: option.splits)

lemma emit_eq:
  "emit ev w = w\<lparr>emitted := emitted w @ [ev],
                 received := received w @ map (\<lambda>sub. (sub, ev)) (subscribersOf w (getTypeIndex ev))\<rparr>"
  by (simp add: emit_def Let_def fold_receive subscribersOf_def split: option.splits)

lemma map_of_push_back:
  "map_of (map (\<lambda>(k', l'). if k' = k then (k', l' @ [s]) else (k', l')) xs) k'' =
     (if k'' = k then map_option (\<lambda>l. l @ [s]) (map_of xs k) else map_of xs k'')"
  by (induction xs) auto

lemma subscribersOf_subscribe:
  "subscribersOf (subscribe t s w) t' = (if t' = t then subscribersOf w t @ [s] else subscribersOf w t')"
  by (auto simp: subscribersOf_def subscribe_def map_of_push_back map_add_def split: option.splits)

lemma subscribe_fields [simp]:
  "received (subscribe t s w) = received w"
  "emitted (subscribe t s w) = emitted w"
  "entities (subscribe t s w) = entities w"
  by (simp_all add: subscribe_def split: option.splits)

text \<open>
  C7. \<^verbatim>\<open>emit<T>(event)\<close> calls \<^verbatim>\<open>receive\<close> on every subscriber registered for \<open>T\<close>, in
  the order of the type's vector, before it returns; \<^verbatim>\<open>subscribe<T>\<close> appends to that
  vector and leaves the other types' vectors alone, so subscribing \<open>a\<close> then \<open>b\<close> has
  \<open>a\<close> notified before \<open>b\<close>, after the earlier subscribers. With no entry for \<open>T\<close>,
  \<^verbatim>\<open>emit\<close> calls nothing and changes nothing but the trace of emitted events.
\<close>

theorem emit_in_registration_order:
  "received (emit ev w) = received w @ map (\<lambda>sub. (sub, ev)) (subscribersOf w (getTypeIndex ev))
   \<and> subscribersOf (subscribe t s w) t = subscribersOf w t @ [s]
   \<and> (t' \<noteq> t \<longrightarrow> subscribersOf (subscribe t s w) t' = subscribersOf w t')
   \<and> received (emit ev (subscribe (getTypeIndex ev) b (subscribe (getTypeIndex ev) a w))) =
       received w @ map (\<lambda>sub. (sub, ev)) (subscribersOf w (getTypeIndex ev) @ [a, b])
   \<and> (map_of (subscribers w) (getTypeIndex ev) = None \<longrightarrow>
        emit ev w = w\<lparr>emitted := emitted w @ [ev]\<rparr>)"
  by (simp add: emit_eq subscribersOf_subscribe) (simp add: subscribersOf_def)

theorem emit_in_registration_order_witness:
  "received (emit (UserEvent 0 (7::nat))
      (subscribe (TUser 0) 5 (subscribe (TUser 0) 4 (subscribe (TUser 0) 3 createWorld)))) =
     [(3, UserEvent 0 7), (4, UserEvent 0 7), (5, UserEvent 0 7)]
   \<and> subscribersOf (subscribe (TUser 0) 3 (createWorld :: nat World)) (TUser 1) = []
   \<and> emit (UserEvent 0 (7::nat)) createWorld = createWorld\<lparr>emitted := [UserEvent 0 7]\<rparr>"
  using emit_in_registration_order [of "UserEvent 0 (7::nat)" "subscribe (TUser 0) 3 createWorld"
      "TUser 0" 3 "TUser 1" 5 4]
    emit_in_registration_order [of "UserEvent 0 (7::nat)" createWorld "TUser 0" 3 "TUser 1" 5 4]
  by (simp add: subscribersOf_def createWorld_def subscribe_def)

section \<open>Creating entities\<close>

lemma create_eq:
  "create w = (nextPtr w, emit (OnEntityCreated (nextPtr w))
     (w\<lparr>lastEntityId := lastEntityId w + 1, nextPtr := Suc (nextPtr w),
        entityHeap := (entityHeap w)
           (nextPtr w \<mapsto> \<lparr>components = [], id' = lastEntityId w + 1, bPendingDestroy = False\<rparr>),
        entities := entities w @ [nextPtr w]\<rparr>))"
  by (simp add: create_def Let_def)

lemma reset_empties:
  "reset w0 = Inr w \<Longrightarrow> entities w = [] \<and> lastEntityId w = 0"
  by (auto simp: reset_def split: sum.splits)

lemma upt_0_Suc: "[0 ..< Suc n] = 0 # map Suc [0 ..< n]"
  by (simp add: upt_conv_Cons map_Suc_upt del: upt_Suc)

lemma create_n_general:
  "create_n n w = (rs, w') \<Longrightarrow>
   map fst rs = map (\<lambda>k. nextPtr w + k) [0 ..< n]
   \<and> map snd rs = map (\<lambda>k. Inr (lastEntityId w + word_of_nat (Suc k))) [0 ..< n]
   \<and> entities w' = entities w @ map fst rs
   \<and> nextPtr w' = nextPtr w + n
   \<and> lastEntityId w' = lastEntityId w + word_of_nat n
   \<and> (\<forall>a < nextPtr w. entityHeap w' a = entityHeap w a)
   \<and> map (getEntityId w') (map fst rs) = map snd rs"
proof (induction n arbitrary: w rs w')
  case 0
  then show ?case by simp
next
  case (Suc n)
  obtain ent w1 where c: "create w = (ent, w1)" by (cases "create w")
  obtain rest w2 where r: "create_n n w1 = (rest, w2)" by (cases "create_n n w1")
  from Suc.prems c r have rs: "rs = (ent, getEntityId w1 ent) # rest" and w': "w' = w2"
    by simp_all
  from c have ent: "ent = nextPtr w" and
    w1: "nextPtr w1 = Suc (nextPtr w)" "lastEntityId w1 = lastEntityId w + 1"
      "entities w1 = entities w @ [nextPtr w]"
      "entityHeap w1 = (entityHeap w)(nextPtr w \<mapsto> \<lparr>components = [], id' = lastEntityId w + 1, bPendingDestroy = False\<rparr>)"
    by (auto simp: create_eq)
  from Suc.IH [OF r] have
    IH1: "map fst rest = map (\<lambda>k. nextPtr w1 + k) [0 ..< n]" and
    IH2: "map snd rest = map (\<lambda>k. Inr (lastEntityId w1 + word_of_nat (Suc k))) [0 ..< n]" and
    IH3: "entities w2 = entities w1 @ map fst rest" and
    IH4: "nextPtr w2 = nextPtr w1 + n" and
    IH5: "lastEntityId w2 = lastEntityId w1 + word_of_nat n" and
    IH6: "\<forall>a < nextPtr w1. entityHeap w2 a = entityHeap w1 a" and
    IH7: "map (getEntityId w2) (map fst rest) = map snd rest"
    by blast+
  have id1: "getEntityId w1 ent = Inr (lastEntityId w + 1)"
    by (simp add: getEntityId_def w1 ent)
  have keep: "entityHeap w2 ent = entityHeap w1 ent"
    using IH6 by (simp add: w1 ent)
  have id2: "getEntityId w2 ent = Inr (lastEntityId w + 1)"
    using id1 keep by (simp add: getEntityId_def)
  have c1: "map fst rs = map (\<lambda>k. nextPtr w + k) [0 ..< Suc n]"
    unfolding upt_0_Suc by (simp add: rs ent IH1 w1 o_def)
  have c2: "map snd rs = map (\<lambda>k. Inr (lastEntityId w + word_of_nat (Suc k))) [0 ..< Suc n]"
    unfolding upt_0_Suc by (simp add: rs id1 IH2 w1 o_def add.assoc)
  have c3: "entities w' = entities w @ map fst rs"
    by (simp add: w' IH3 w1 rs ent)
  have c4: "nextPtr w' = nextPtr w + Suc n"
    by (simp add: w' IH4 w1)
  have c5: "lastEntityId w' = lastEntityId w + word_of_nat (Suc n)"
    by (simp add: w' IH5 w1 add.assoc add.commute)
  have c6: "\<forall>a < nextPtr w. entityHeap w' a = entityHeap w a"
    using IH6 by (simp add: w' w1)
  have c7: "map (getEntityId w') (map fst rs) = map snd rs"
    using IH7 by (simp add: w' rs id1 id2)
  from c1 c2 c3 c4 c5 c6 c7 show ?case by blast
qed

text \<open>
  C5. In a world just constructed, or just reset, \<open>N\<close> successive calls of \<^verbatim>\<open>create\<close>
  (\<open>N\<close> below \<open>2^64\<close>, the range of \<^verbatim>\<open>size_t\<close>) return entities whose ids are
  1, 2, ..., \<open>N\<close> in this order, without wrapping, so 0 is not issued; the returned
  pointers are distinct and are, in order, the world's sequence; the ids read through
  the sequence afterwards are the same; and \<^verbatim>\<open>getCount()\<close> is \<open>N\<close>.
\<close>

theorem create_issues_ids_1_to_N:
  assumes "w = createWorld \<or> reset w0 = Inr w"
    and "N < 2 ^ 64"
    and "create_n N w = (rs, w')"
  shows "map snd rs = map (\<lambda>k. Inr (word_of_nat k)) [1 ..< Suc N]
     \<and> map (\<lambda>k. unat (word_of_nat k :: 64 word)) [1 ..< Suc N] = [1 ..< Suc N]
     \<and> entities w' = map fst rs
     \<and> distinct (map fst rs)
     \<and> map (getEntityId w') (entities w') = map snd rs
     \<and> getCount w' = N"
proof -
  from assms(1) have start: "entities w = []" "lastEntityId w = 0"
    by (auto simp: createWorld_def dest: reset_empties)
  from create_n_general [OF assms(3)] have
    g1: "map fst rs = map (\<lambda>k. nextPtr w + k) [0 ..< N]" and
    g2: "map snd rs = map (\<lambda>k. Inr (lastEntityId w + word_of_nat (Suc k))) [0 ..< N]" and
    g3: "entities w' = entities w @ map fst rs" and
    g7: "map (getEntityId w') (map fst rs) = map snd rs"
    by blast+
  have shift: "[1 ..< Suc N] = map Suc [0 ..< N]"
    by (simp add: map_Suc_upt del: upt_Suc)
  have a: "map snd rs = map (\<lambda>k. Inr (word_of_nat k)) [1 ..< Suc N]"
    unfolding shift g2 by (simp add: start o_def)
  have b: "map (\<lambda>k. unat (word_of_nat k :: 64 word)) [1 ..< Suc N] = [1 ..< Suc N]"
  proof -
    have "unat (word_of_nat k :: 64 word) = k" if "k \<in> set [1 ..< Suc N]" for k
    proof -
      from that assms(2) have "k < 2 ^ 64" by (simp del: upt_Suc)
      then show ?thesis by (simp add: unat_of_nat)
    qed
    then show ?thesis by (intro map_idI) blast
  qed
  have c: "entities w' = map fst rs"
    by (simp add: g3 start)
  have d: "distinct (map fst rs)"
    unfolding g1 by (simp add: distinct_map inj_on_def)
  have e: "map (getEntityId w') (entities w') = map snd rs"
    unfolding c by (rule g7)
  have "length (map fst rs) = N"
    unfolding g1 by simp
  then have f: "getCount w' = N"
    by (simp add: getCount_def c)
  from a b c d e f show ?thesis by blast
qed

theorem create_issues_ids_1_to_N_witness:
  "map snd (fst (create_n 3 (createWorld :: nat World))) = [Inr 1, Inr 2, Inr 3]
   \<and> getCount (snd (create_n 3 (createWorld :: nat World))) = 3"
  using create_issues_ids_1_to_N [of "createWorld :: nat World" undefined 3
      "fst (create_n 3 (createWorld :: nat World))" "snd (create_n 3 (createWorld :: nat World))"]
  by (simp add: upt_conv_Cons)

section \<open>Destroying entities\<close>

lemma emitted_emit [simp]: "emitted (emit ev w) = emitted w @ [ev]"
  by (simp add: emit_eq)

lemma setPendingDestroy_fields [simp]:
  "entities (setPendingDestroy p e w) = entities w"
  "subscribers (setPendingDestroy p e w) = subscribers w"
  "lastEntityId (setPendingDestroy p e w) = lastEntityId w"
  "entityHeap (setPendingDestroy p e w) = (entityHeap w)(p \<mapsto> e\<lparr>bPendingDestroy := True\<rparr>)"
  "componentHeap (setPendingDestroy p e w) = componentHeap w"
  "nextPtr (setPendingDestroy p e w) = nextPtr w"
  "emitted (setPendingDestroy p e w) = emitted w"
  "received (setPendingDestroy p e w) = received w"
  by (simp_all add: setPendingDestroy_def)

lemma deallocateEntity_Some:
  "entityHeap w p = Some e \<Longrightarrow>
   deallocateEntity p w =
     Inr (w\<lparr>componentHeap := removeAll_components (components e) (componentHeap w),
            entityHeap := (entityHeap w)(p := None)\<rparr>)"
  by (simp add: deallocateEntity_def)

lemma eraseAndDeallocate_Some:
  "entityHeap w p = Some e \<Longrightarrow>
   eraseAndDeallocate p w =
     Inr (w\<lparr>entities := removeAll p (entities w),
            componentHeap := removeAll_components (components e) (componentHeap w),
            entityHeap := (entityHeap w)(p := None)\<rparr>)"
  by (simp add: eraseAndDeallocate_def deallocateEntity_def)

lemma destroy_dangling:
  "entityHeap w p = None \<Longrightarrow> destroy (Some p) immediate w = Inl DanglingPointer"
  by (simp add: destroy_def)

lemma destroy_pending:
  "entityHeap w p = Some e \<Longrightarrow> bPendingDestroy e \<Longrightarrow>
   destroy (Some p) immediate w =
     Inr (if immediate
          then w\<lparr>entities := removeAll p (entities w),
                 componentHeap := removeAll_components (components e) (componentHeap w),
                 entityHeap := (entityHeap w)(p := None)\<rparr>
          else w)"
  by (simp add: destroy_def eraseAndDeallocate_Some)

lemma destroy_live:
  "entityHeap w p = Some e \<Longrightarrow> \<not> bPendingDestroy e \<Longrightarrow>
   destroy (Some p) immediate w =
     Inr (let w1 = emit (OnEntityDestroyed p) (setPendingDestroy p e w) in
          if immediate
          then w1\<lparr>entities := removeAll p (entities w),
                  componentHeap := removeAll_components (components e) (componentHeap w),
                  entityHeap := (entityHeap w)(p := None)\<rparr>
          else w1)"
  by (simp add: destroy_def eraseAndDeallocate_Some Let_def)

lemma destroy_step:
  assumes "destroy (Some p) immediate w = Inr w1"
  shows "emitted w1 = emitted w @ (if isPendingDestroy w p = Inr False then [OnEntityDestroyed p] else [])
         \<and> isPendingDestroy w1 p \<noteq> Inr False"
proof (cases "entityHeap w p")
  case None
  with assms show ?thesis by (simp add: destroy_dangling)
next
  case (Some e)
  show ?thesis
  proof (cases "bPendingDestroy e")
    case True
    with Some assms show ?thesis
      by (auto simp: destroy_pending isPendingDestroy_def split: if_splits)
  next
    case False
    with Some assms show ?thesis
      by (auto simp: destroy_live isPendingDestroy_def Let_def split: if_splits)
  qed
qed

lemma destroy_calls_emitted:
  "destroy_calls (Some p) flags w = Inr w' \<Longrightarrow>
   emitted w' = emitted w @
     (if flags \<noteq> [] \<and> isPendingDestroy w p = Inr False then [OnEntityDestroyed p] else [])"
proof (induction flags arbitrary: w)
  case Nil
  then show ?case by simp
next
  case (Cons b flags)
  from Cons.prems obtain w1 where
    d: "destroy (Some p) b w = Inr w1" and r: "destroy_calls (Some p) flags w1 = Inr w'"
    by (auto split: sum.splits)
  from destroy_step [OF d] Cons.IH [OF r] show ?case by simp
qed

lemma destroy_calls_deferred:
  "entityHeap w p = Some e \<Longrightarrow>
   \<exists>w' e'. destroy_calls (Some p) (replicate n False) w = Inr w' \<and> entityHeap w' p = Some e'"
proof (induction n arbitrary: w e)
  case 0
  then show ?case by simp
next
  case (Suc n)
  show ?case
  proof (cases "bPendingDestroy e")
    case True
    with Suc.prems have "destroy (Some p) False w = Inr w" by (simp add: destroy_pending)
    with Suc.IH [OF Suc.prems] show ?thesis by simp
  next
    case False
    let ?w1 = "emit (OnEntityDestroyed p) (setPendingDestroy p e w)"
    from False Suc.prems have d: "destroy (Some p) False w = Inr ?w1"
      by (simp add: destroy_live Let_def)
    have "entityHeap ?w1 p = Some (e\<lparr>bPendingDestroy := True\<rparr>)" by simp
    from Suc.IH [OF this] d show ?thesis by simp
  qed
qed

lemma destroy_calls_append:
  "destroy_calls ent (xs @ ys) w =
     (case destroy_calls ent xs w of Inl x \<Rightarrow> Inl x | Inr w1 \<Rightarrow> destroy_calls ent ys w1)"
  by (induction xs arbitrary: w) (simp_all split: sum.splits)

lemma destroy_returns:
  "entityHeap w p = Some e \<Longrightarrow> \<exists>w'. destroy (Some p) immediate w = Inr w'"
  by (cases "bPendingDestroy e") (simp_all add: destroy_pending destroy_live)

lemma destroy_trace_emitted:
  "emitted (destroy_trace (Some p) flags w) = emitted w @
     (if flags \<noteq> [] \<and> isPendingDestroy w p = Inr False then [OnEntityDestroyed p] else [])"
proof (induction flags arbitrary: w)
  case Nil
  then show ?case by simp
next
  case (Cons b flags)
  show ?case
  proof (cases "destroy (Some p) b w")
    case (Inl x)
    have "entityHeap w p = None"
    proof (cases "entityHeap w p")
      case (Some e)
      from destroy_returns [OF Some, of b] Inl show ?thesis by auto
    qed simp
    with Inl show ?thesis by (simp add: isPendingDestroy_def)
  next
    case (Inr w1)
    from destroy_step [OF Inr] Cons.IH [of w1] Inr show ?thesis by simp
  qed
qed

text \<open>
  C3. \<^verbatim>\<open>destroy\<close> of the null pointer does nothing. For an entity \<open>p\<close> of the world,
  one call \<^verbatim>\<open>destroy(p, immediate)\<close> returns and emits \<^verbatim>\<open>OnEntityDestroyed{p}\<close> exactly
  when \<open>p\<close> was not pending destroy at the call, and nothing otherwise. Over any
  sequence of \<^verbatim>\<open>destroy\<close> calls on \<open>p\<close>, the events emitted (up to the end of the
  sequence, or up to a call that reads the entity after an immediate call freed it) are
  that one event when the sequence is not empty and \<open>p\<close> was live at its start, and
  none otherwise: a later call never emits it again. Any number of deferred calls
  followed by one more call (deferred or immediate) runs to its end.
\<close>

theorem destroy_emits_once:
  "destroy None immediate w = Inr w
   \<and> (entityHeap w p = Some e \<longrightarrow>
        (\<exists>w'. destroy (Some p) immediate w = Inr w' \<and>
           emitted w' = emitted w @ (if bPendingDestroy e then [] else [OnEntityDestroyed p])))
   \<and> (destroy_calls (Some p) flags w = Inr w'' \<longrightarrow>
        emitted w'' = emitted w @
          (if flags \<noteq> [] \<and> isPendingDestroy w p = Inr False then [OnEntityDestroyed p] else []))
   \<and> emitted (destroy_trace (Some p) flags w) = emitted w @
          (if flags \<noteq> [] \<and> isPendingDestroy w p = Inr False then [OnEntityDestroyed p] else [])
   \<and> (entityHeap w p = Some e \<longrightarrow>
        (\<exists>w'. destroy_calls (Some p) (replicate n False @ [immediate]) w = Inr w'))"
proof -
  note t = destroy_trace_emitted [of p flags w]
  have a: "destroy None immediate w = Inr w" by (simp add: destroy_def)
  have b: "\<exists>w'. destroy (Some p) immediate w = Inr w' \<and>
           emitted w' = emitted w @ (if bPendingDestroy e then [] else [OnEntityDestroyed p])"
    if h: "entityHeap w p = Some e"
  proof -
    from destroy_returns [OF h] obtain w' where d: "destroy (Some p) immediate w = Inr w'" ..
    from destroy_step [OF d] h show ?thesis
      using d by (auto simp: isPendingDestroy_def)
  qed
  have c: "emitted w'' = emitted w @
          (if flags \<noteq> [] \<and> isPendingDestroy w p = Inr False then [OnEntityDestroyed p] else [])"
    if "destroy_calls (Some p) flags w = Inr w''"
    using that by (rule destroy_calls_emitted)
  have d: "\<exists>w'. destroy_calls (Some p) (replicate n False @ [immediate]) w = Inr w'"
    if h: "entityHeap w p = Some e"
  proof -
    from destroy_calls_deferred [OF h] obtain w1 e1 where
      "destroy_calls (Some p) (replicate n False) w = Inr w1" "entityHeap w1 p = Some e1"
      by blast
    with destroy_returns [of w1 p e1 immediate] show ?thesis
      by (auto simp: destroy_calls_append)
  qed
  from a b c d t show ?thesis by blast
qed

theorem destroy_emits_once_witness:
  "entityHeap (snd (create (createWorld :: nat World))) 1 =
     Some \<lparr>components = [], id' = 1, bPendingDestroy = False\<rparr>
   \<and> (\<exists>w'. destroy_calls (Some 1) [False, False, True] (snd (create (createWorld :: nat World))) = Inr w'
          \<and> emitted w' = [OnEntityCreated 1, OnEntityDestroyed 1])
   \<and> emitted (destroy_trace (Some 1) [True, True, False] (snd (create (createWorld :: nat World)))) =
       [OnEntityCreated 1, OnEntityDestroyed 1]"
proof -
  let ?w = "snd (create (createWorld :: nat World))"
  let ?e = "\<lparr>components = [], id' = 1, bPendingDestroy = False\<rparr>"
  have h: "entityHeap ?w 1 = Some ?e"
    by (simp add: create_eq createWorld_def)
  have em: "emitted ?w = [OnEntityCreated 1]"
    by (simp add: create_eq createWorld_def)
  from destroy_emits_once [where w = ?w and p = 1 and e = ?e and n = 2 and immediate = True] h
  obtain w' where r: "destroy_calls (Some 1) [False, False, True] ?w = Inr w'"
    by (auto simp: numeral_2_eq_2)
  from destroy_emits_once [where w = ?w and p = 1 and flags = "[False, False, True]" and w'' = w'] r
  have "emitted w' = emitted ?w @
      (if isPendingDestroy ?w 1 = Inr False then [OnEntityDestroyed 1] else [])"
    by simp
  with h em have e1: "emitted w' = [OnEntityCreated 1, OnEntityDestroyed 1]"
    by (simp add: isPendingDestroy_def)
  from destroy_emits_once [where w = ?w and p = 1 and flags = "[True, True, False]"] h em
  have e2: "emitted (destroy_trace (Some 1) [True, True, False] ?w) =
      [OnEntityCreated 1, OnEntityDestroyed 1]"
    by (simp add: isPendingDestroy_def)
  from h r e1 e2 show ?thesis by blast
qed

section \<open>Cleanup\<close>

lemma removeAll_components_eq:
  "removeAll_components cs h c = (if c \<in> snd ` set cs then None else h c)"
  unfolding removeAll_components_def
  by (induction cs arbitrary: h) auto

lemma filter_pending_cong:
  "\<forall>a \<in> set es. entityHeap w1 a = entityHeap w a \<Longrightarrow>
   filter (\<lambda>a. isPendingDestroy w1 a = Inr b) es = filter (\<lambda>a. isPendingDestroy w a = Inr b) es"
  by (rule filter_cong) (simp_all add: isPendingDestroy_def)

lemma cleanup_loop_result:
  "distinct es \<Longrightarrow> \<forall>a \<in> set es. entityHeap w a \<noteq> None \<Longrightarrow>
   \<exists>w'. cleanup_loop es w count =
          Inr (filter (\<lambda>a. isPendingDestroy w a = Inr False) es, w',
               count + length (filter (\<lambda>a. isPendingDestroy w a = Inr True) es))
      \<and> (\<forall>a. entityHeap w' a =
            (if a \<in> set es \<and> isPendingDestroy w a = Inr True then None else entityHeap w a))
      \<and> (\<forall>c. componentHeap w' c =
            (if \<exists>a \<in> set es. \<exists>e. entityHeap w a = Some e \<and> bPendingDestroy e
                  \<and> c \<in> snd ` set (components e)
             then None else componentHeap w c))
      \<and> entities w' = entities w \<and> subscribers w' = subscribers w
      \<and> lastEntityId w' = lastEntityId w \<and> emitted w' = emitted w \<and> received w' = received w"
proof (induction es arbitrary: w count)
  case Nil
  then show ?case by simp
next
  case (Cons ent rest)
  from Cons.prems obtain e where e: "entityHeap w ent = Some e" by auto
  from Cons.prems have dist: "distinct rest" and notin: "ent \<notin> set rest" by simp_all
  show ?case
  proof (cases "bPendingDestroy e")
    case True
    let ?w1 = "w\<lparr>componentHeap := removeAll_components (components e) (componentHeap w),
                  entityHeap := (entityHeap w)(ent := None)\<rparr>"
    have d: "deallocateEntity ent w = Inr ?w1" using e by (rule deallocateEntity_Some)
    have same: "\<forall>a \<in> set rest. entityHeap ?w1 a = entityHeap w a"
      using notin by auto
    have alloc: "\<forall>a \<in> set rest. entityHeap ?w1 a \<noteq> None"
      using same Cons.prems by simp
    from Cons.IH [OF dist alloc, of "count + 1"] obtain w' where
      r: "cleanup_loop rest ?w1 (count + 1) =
          Inr (filter (\<lambda>a. isPendingDestroy ?w1 a = Inr False) rest, w',
               count + 1 + length (filter (\<lambda>a. isPendingDestroy ?w1 a = Inr True) rest))" and
      h: "\<forall>a. entityHeap w' a =
            (if a \<in> set rest \<and> isPendingDestroy ?w1 a = Inr True then None else entityHeap ?w1 a)" and
      c: "\<forall>c. componentHeap w' c =
            (if \<exists>a \<in> set rest. \<exists>e. entityHeap ?w1 a = Some e \<and> bPendingDestroy e
                  \<and> c \<in> snd ` set (components e)
             then None else componentHeap ?w1 c)" and
      f: "entities w' = entities ?w1" "subscribers w' = subscribers ?w1"
        "lastEntityId w' = lastEntityId ?w1" "emitted w' = emitted ?w1" "received w' = received ?w1"
      by blast
    have pend: "isPendingDestroy w ent = Inr True" using e True by (simp add: isPendingDestroy_def)
    have p1: "\<And>a b. a \<in> set rest \<Longrightarrow> (isPendingDestroy ?w1 a = Inr b) = (isPendingDestroy w a = Inr b)"
      using same by (simp add: isPendingDestroy_def)
    have r': "cleanup_loop (ent # rest) w count =
          Inr (filter (\<lambda>a. isPendingDestroy w a = Inr False) (ent # rest), w',
               count + length (filter (\<lambda>a. isPendingDestroy w a = Inr True) (ent # rest)))"
      using e True d r pend filter_pending_cong [OF same] by simp
    have h': "\<forall>a. entityHeap w' a =
            (if a \<in> set (ent # rest) \<and> isPendingDestroy w a = Inr True then None else entityHeap w a)"
      using h pend p1 by auto
    have c': "\<forall>c. componentHeap w' c =
            (if \<exists>a \<in> set (ent # rest). \<exists>e. entityHeap w a = Some e \<and> bPendingDestroy e
                  \<and> c \<in> snd ` set (components e)
             then None else componentHeap w c)"
    proof
      fix c
      have "(\<exists>a \<in> set rest. \<exists>e. entityHeap ?w1 a = Some e \<and> bPendingDestroy e \<and> c \<in> snd ` set (components e))
          = (\<exists>a \<in> set rest. \<exists>e. entityHeap w a = Some e \<and> bPendingDestroy e \<and> c \<in> snd ` set (components e))"
        using same by simp
      then show "componentHeap w' c =
            (if \<exists>a \<in> set (ent # rest). \<exists>e. entityHeap w a = Some e \<and> bPendingDestroy e
                  \<and> c \<in> snd ` set (components e)
             then None else componentHeap w c)"
        using c [rule_format, of c] e True by (auto simp: removeAll_components_eq)
    qed
    from r' h' c' f show ?thesis by simp
  next
    case False
    from Cons.prems have alloc: "\<forall>a \<in> set rest. entityHeap w a \<noteq> None" by simp
    from Cons.IH [OF dist alloc, of count] obtain w' where
      r: "cleanup_loop rest w count =
          Inr (filter (\<lambda>a. isPendingDestroy w a = Inr False) rest, w',
               count + length (filter (\<lambda>a. isPendingDestroy w a = Inr True) rest))" and
      h: "\<forall>a. entityHeap w' a =
            (if a \<in> set rest \<and> isPendingDestroy w a = Inr True then None else entityHeap w a)" and
      c: "\<forall>c. componentHeap w' c =
            (if \<exists>a \<in> set rest. \<exists>e. entityHeap w a = Some e \<and> bPendingDestroy e
                  \<and> c \<in> snd ` set (components e)
             then None else componentHeap w c)" and
      f: "entities w' = entities w" "subscribers w' = subscribers w"
        "lastEntityId w' = lastEntityId w" "emitted w' = emitted w" "received w' = received w"
      by blast
    have pend: "isPendingDestroy w ent = Inr False" using e False by (simp add: isPendingDestroy_def)
    have r': "cleanup_loop (ent # rest) w count =
          Inr (filter (\<lambda>a. isPendingDestroy w a = Inr False) (ent # rest), w',
               count + length (filter (\<lambda>a. isPendingDestroy w a = Inr True) (ent # rest)))"
      using e False r pend by simp
    have h': "\<forall>a. entityHeap w' a =
            (if a \<in> set (ent # rest) \<and> isPendingDestroy w a = Inr True then None else entityHeap w a)"
      using h pend by auto
    have c': "\<forall>c. componentHeap w' c =
            (if \<exists>a \<in> set (ent # rest). \<exists>e. entityHeap w a = Some e \<and> bPendingDestroy e
                  \<and> c \<in> snd ` set (components e)
             then None else componentHeap w c)"
      using c e False by auto
    from r' h' c' f show ?thesis by simp
  qed
qed


text \<open>
  C10. On a world whose sequence is valid, \<^verbatim>\<open>cleanup\<close> returns; the new sequence is the
  old one without its pending-destroy entities, the others in their old order; the
  result is true exactly when some entity of the sequence was pending destroy, which is
  exactly when the count went down; the removed entities are deallocated; an entity
  that is not pending destroy keeps its object as it was, and a component container
  that belongs to no removed entity keeps its value.
\<close>

theorem cleanup_removes_pending:
  assumes "entities_valid w"
  shows "\<exists>w'. cleanup w = Inr (\<exists>a \<in> set (entities w). isPendingDestroy w a = Inr True, w')
     \<and> entities w' = filter (\<lambda>a. isPendingDestroy w a = Inr False) (entities w)
     \<and> ((\<exists>a \<in> set (entities w). isPendingDestroy w a = Inr True) = (getCount w' < getCount w))
     \<and> (\<forall>a. isPendingDestroy w a = Inr False \<longrightarrow> entityHeap w' a = entityHeap w a)
     \<and> (\<forall>a \<in> set (entities w). isPendingDestroy w a = Inr True \<longrightarrow> entityHeap w' a = None)
     \<and> (\<forall>c. (\<forall>a \<in> set (entities w). \<forall>e. entityHeap w a = Some e \<and> bPendingDestroy e
                  \<longrightarrow> c \<notin> snd ` set (components e))
            \<longrightarrow> componentHeap w' c = componentHeap w c)"
proof -
  let ?P = "\<lambda>a. isPendingDestroy w a = Inr True"
  let ?L = "\<lambda>a. isPendingDestroy w a = Inr False"
  from assms have dist: "distinct (entities w)"
    and alloc: "\<forall>a \<in> set (entities w). entityHeap w a \<noteq> None"
    by (simp_all add: entities_valid_def)
  from cleanup_loop_result [OF dist alloc, of 0] obtain w1 where
    r: "cleanup_loop (entities w) w 0 =
          Inr (filter ?L (entities w), w1, length (filter ?P (entities w)))" and
    h: "\<forall>a. entityHeap w1 a =
          (if a \<in> set (entities w) \<and> ?P a then None else entityHeap w a)" and
    c: "\<forall>c. componentHeap w1 c =
          (if \<exists>a \<in> set (entities w). \<exists>e. entityHeap w a = Some e \<and> bPendingDestroy e
                \<and> c \<in> snd ` set (components e)
           then None else componentHeap w c)"
    by auto
  let ?w' = "w1\<lparr>entities := filter ?L (entities w)\<rparr>"
  have flag: "(filter ?P (entities w) \<noteq> []) = (\<exists>a \<in> set (entities w). ?P a)"
    by (auto simp: filter_empty_conv)
  have ret: "cleanup w = Inr (\<exists>a \<in> set (entities w). ?P a, ?w')"
    by (simp add: cleanup_def r flag)
  have either: "\<And>a. a \<in> set (entities w) \<Longrightarrow> ?L a = (\<not> ?P a)"
    using alloc by (auto simp: isPendingDestroy_def)
  have cnt: "(\<exists>a \<in> set (entities w). ?P a) = (getCount ?w' < getCount w)"
  proof
    assume "\<exists>a \<in> set (entities w). ?P a"
    then obtain a where "a \<in> set (entities w)" "\<not> ?L a" using either by auto
    then show "getCount ?w' < getCount w"
      by (simp add: getCount_def length_filter_less)
  next
    assume lt: "getCount ?w' < getCount w"
    show "\<exists>a \<in> set (entities w). ?P a"
    proof (rule ccontr)
      assume "\<not> (\<exists>a \<in> set (entities w). ?P a)"
      then have "\<forall>a \<in> set (entities w). ?L a" using either by simp
      then have "filter ?L (entities w) = entities w" by (simp add: filter_id_conv)
      with lt show False by (simp add: getCount_def)
    qed
  qed
  have keep: "\<forall>a. ?L a \<longrightarrow> entityHeap ?w' a = entityHeap w a"
    using h by simp
  have gone: "\<forall>a \<in> set (entities w). ?P a \<longrightarrow> entityHeap ?w' a = None"
    using h by simp
  have frame: "\<forall>c. (\<forall>a \<in> set (entities w). \<forall>e. entityHeap w a = Some e \<and> bPendingDestroy e
                  \<longrightarrow> c \<notin> snd ` set (components e))
            \<longrightarrow> componentHeap ?w' c = componentHeap w c"
    using c by auto
  have ents: "entities ?w' = filter ?L (entities w)" by simp
  from ret ents cnt keep gone frame show ?thesis by blast
qed


lemmas world_eval =
  eval_nat_numeral create_eq emit_eq destroy_def setPendingDestroy_def subscribersOf_def
  createWorld_def Let_def isPendingDestroy_def entities_valid_def

theorem cleanup_removes_pending_witness:
  "entities_valid (projr (destroy (Some 2) False (snd (create_n 3 (createWorld :: nat World)))))
   \<and> (\<exists>w'. cleanup (projr (destroy (Some 2) False (snd (create_n 3 (createWorld :: nat World)))))
              = Inr (True, w')
          \<and> entities w' = [1, 3])"
proof -
  let ?W = "projr (destroy (Some 2) False (snd (create_n 3 (createWorld :: nat World))))"
  have ents: "entities ?W = [1, 2, 3]"
    by (simp add: world_eval)
  have heap: "isPendingDestroy ?W (Suc 0) = Inr False" "isPendingDestroy ?W 2 = Inr True"
    "isPendingDestroy ?W 3 = Inr False"
    by (simp_all add: world_eval)
  have v: "entities_valid ?W"
    using heap by (auto simp: entities_valid_def ents isPendingDestroy_def split: option.splits)
  from cleanup_removes_pending [OF v] obtain w' where
    "cleanup ?W = Inr (\<exists>a \<in> set (entities ?W). isPendingDestroy ?W a = Inr True, w')"
    "entities w' = filter (\<lambda>a. isPendingDestroy ?W a = Inr False) (entities ?W)"
    by blast
  then have "cleanup ?W = Inr (True, w') \<and> entities w' = [1, 3]"
    by (simp add: ents heap)
  with v show ?thesis by blast
qed

section \<open>Reset\<close>

lemma reset_loop_result:
  "distinct es \<Longrightarrow> \<forall>a \<in> set es. entityHeap w a \<noteq> None \<Longrightarrow>
   \<exists>w'. reset_loop es w = Inr w'
      \<and> emitted w' = emitted w @
            map OnEntityDestroyed (filter (\<lambda>a. isPendingDestroy w a = Inr False) es)
      \<and> received w' = received w @
            concat (map (\<lambda>a. map (\<lambda>sub. (sub, OnEntityDestroyed a))
                                (subscribersOf w TOnEntityDestroyed))
                        (filter (\<lambda>a. isPendingDestroy w a = Inr False) es))
      \<and> (\<forall>a. entityHeap w' a = (if a \<in> set es then None else entityHeap w a))
      \<and> (\<forall>c. componentHeap w' c =
            (if \<exists>a \<in> set es. \<exists>e. entityHeap w a = Some e \<and> c \<in> snd ` set (components e)
             then None else componentHeap w c))
      \<and> entities w' = entities w \<and> subscribers w' = subscribers w
      \<and> lastEntityId w' = lastEntityId w \<and> nextPtr w' = nextPtr w"
proof (induction es arbitrary: w)
  case Nil
  then show ?case by simp
next
  case (Cons ent rest)
  from Cons.prems obtain e where e: "entityHeap w ent = Some e" by auto
  from Cons.prems have dist: "distinct rest" and notin: "ent \<notin> set rest" by simp_all
  define w1 where "w1 = (if \<not> bPendingDestroy e
                     then emit (OnEntityDestroyed ent) (setPendingDestroy ent e w) else w)"
  define e1 where "e1 = (if \<not> bPendingDestroy e then e\<lparr>bPendingDestroy := True\<rparr> else e)"
  have e1: "entityHeap w1 ent = Some e1" and ce1: "components e1 = components e"
    using e by (simp_all add: w1_def e1_def)
  define w2 where "w2 = w1\<lparr>componentHeap := removeAll_components (components e1) (componentHeap w1),
                  entityHeap := (entityHeap w1)(ent := None)\<rparr>"
  have d: "deallocateEntity ent w1 = Inr w2"
    unfolding w2_def using e1 by (rule deallocateEntity_Some)
  have step: "reset_loop (ent # rest) w = reset_loop rest w2"
    using e d by (simp add: w1_def Let_def)
  have same: "\<forall>a \<in> set rest. entityHeap w2 a = entityHeap w a"
    using notin by (auto simp: w2_def w1_def)
  have heap2: "\<forall>a. entityHeap w2 a = (if a = ent then None else entityHeap w a)"
    by (auto simp: w2_def w1_def)
  have comp2: "\<forall>c. componentHeap w2 c =
      (if c \<in> snd ` set (components e) then None else componentHeap w c)"
    by (simp add: w2_def ce1 removeAll_components_eq) (simp add: w1_def)
  have em2: "emitted w2 = emitted w @ (if bPendingDestroy e then [] else [OnEntityDestroyed ent])"
    by (simp add: w2_def w1_def)
  have rc2: "received w2 = received w @
      (if bPendingDestroy e then []
       else map (\<lambda>sub. (sub, OnEntityDestroyed ent)) (subscribersOf w TOnEntityDestroyed))"
    by (simp add: w2_def w1_def emit_eq subscribersOf_def)
  have f2: "entities w2 = entities w" "subscribers w2 = subscribers w"
    "lastEntityId w2 = lastEntityId w" "nextPtr w2 = nextPtr w"
    by (simp_all add: w2_def w1_def)
  have alloc: "\<forall>a \<in> set rest. entityHeap w2 a \<noteq> None"
    using same Cons.prems by simp
  from Cons.IH [OF dist alloc] obtain w' where
    r: "reset_loop rest w2 = Inr w'" and
    em: "emitted w' = emitted w2 @
            map OnEntityDestroyed (filter (\<lambda>a. isPendingDestroy w2 a = Inr False) rest)" and
    rc: "received w' = received w2 @
            concat (map (\<lambda>a. map (\<lambda>sub. (sub, OnEntityDestroyed a))
                                (subscribersOf w2 TOnEntityDestroyed))
                        (filter (\<lambda>a. isPendingDestroy w2 a = Inr False) rest))" and
    h: "\<forall>a. entityHeap w' a = (if a \<in> set rest then None else entityHeap w2 a)" and
    c: "\<forall>c. componentHeap w' c =
            (if \<exists>a \<in> set rest. \<exists>e. entityHeap w2 a = Some e \<and> c \<in> snd ` set (components e)
             then None else componentHeap w2 c)" and
    f: "entities w' = entities w2" "subscribers w' = subscribers w2"
       "lastEntityId w' = lastEntityId w2" "nextPtr w' = nextPtr w2"
    by blast
  have pend: "isPendingDestroy w ent = Inr (bPendingDestroy e)"
    using e by (simp add: isPendingDestroy_def)
  have so: "subscribersOf w2 TOnEntityDestroyed = subscribersOf w TOnEntityDestroyed"
    by (simp add: subscribersOf_def f2)
  note fl = filter_pending_cong [OF same]
  have em': "emitted w' = emitted w @
            map OnEntityDestroyed (filter (\<lambda>a. isPendingDestroy w a = Inr False) (ent # rest))"
    by (simp add: em em2 fl pend)
  have rc': "received w' = received w @
            concat (map (\<lambda>a. map (\<lambda>sub. (sub, OnEntityDestroyed a))
                                (subscribersOf w TOnEntityDestroyed))
                        (filter (\<lambda>a. isPendingDestroy w a = Inr False) (ent # rest)))"
    by (simp add: rc rc2 fl pend so)
  have h': "\<forall>a. entityHeap w' a = (if a \<in> set (ent # rest) then None else entityHeap w a)"
    using h heap2 by auto
  have c': "\<forall>c. componentHeap w' c =
            (if \<exists>a \<in> set (ent # rest). \<exists>e. entityHeap w a = Some e \<and> c \<in> snd ` set (components e)
             then None else componentHeap w c)"
  proof
    fix c
    have "(\<exists>a \<in> set rest. \<exists>e. entityHeap w2 a = Some e \<and> c \<in> snd ` set (components e))
        = (\<exists>a \<in> set rest. \<exists>e. entityHeap w a = Some e \<and> c \<in> snd ` set (components e))"
      using same by simp
    then show "componentHeap w' c =
            (if \<exists>a \<in> set (ent # rest). \<exists>e. entityHeap w a = Some e \<and> c \<in> snd ` set (components e)
             then None else componentHeap w c)"
      using c [rule_format, of c] comp2 [rule_format, of c] e by auto
  qed
  from step r em' rc' h' c' f f2 show ?case by simp
qed


text \<open>
  C9. On a world whose sequence is valid, \<^verbatim>\<open>reset\<close> returns; it emits
  \<^verbatim>\<open>OnEntityDestroyed\<close> for the entities of the sequence that were not pending
  destroy, in sequence order, and for no other; every entity of the sequence is
  deallocated, with its component containers; the sequence is empty, the count 0 and
  the id counter 0, so that the next \<^verbatim>\<open>create\<close> returns an entity with id 1.
\<close>

theorem reset_destroys_all:
  assumes "entities_valid w"
  shows "\<exists>w'. reset w = Inr w'
     \<and> emitted w' = emitted w @
           map OnEntityDestroyed (filter (\<lambda>a. isPendingDestroy w a = Inr False) (entities w))
     \<and> (\<forall>a \<in> set (entities w). entityHeap w' a = None)
     \<and> (\<forall>a \<in> set (entities w). \<forall>e. entityHeap w a = Some e \<longrightarrow>
            (\<forall>c \<in> snd ` set (components e). componentHeap w' c = None))
     \<and> entities w' = [] \<and> getCount w' = 0 \<and> lastEntityId w' = 0
     \<and> getEntityId (snd (create w')) (fst (create w')) = Inr 1"
proof -
  from assms have dist: "distinct (entities w)"
    and alloc: "\<forall>a \<in> set (entities w). entityHeap w a \<noteq> None"
    by (simp_all add: entities_valid_def)
  from reset_loop_result [OF dist alloc] obtain w1 where
    r: "reset_loop (entities w) w = Inr w1" and
    em: "emitted w1 = emitted w @
            map OnEntityDestroyed (filter (\<lambda>a. isPendingDestroy w a = Inr False) (entities w))" and
    h: "\<forall>a. entityHeap w1 a = (if a \<in> set (entities w) then None else entityHeap w a)" and
    c: "\<forall>c. componentHeap w1 c =
            (if \<exists>a \<in> set (entities w). \<exists>e. entityHeap w a = Some e \<and> c \<in> snd ` set (components e)
             then None else componentHeap w c)"
    by blast
  let ?w' = "w1\<lparr>entities := [], lastEntityId := 0\<rparr>"
  have ret: "reset w = Inr ?w'" by (simp add: reset_def r)
  have em': "emitted ?w' = emitted w @
            map OnEntityDestroyed (filter (\<lambda>a. isPendingDestroy w a = Inr False) (entities w))"
    using em by simp
  have h': "\<forall>a \<in> set (entities w). entityHeap ?w' a = None"
    using h by simp
  have c': "\<forall>a \<in> set (entities w). \<forall>e. entityHeap w a = Some e \<longrightarrow>
            (\<forall>c \<in> snd ` set (components e). componentHeap ?w' c = None)"
    using c by auto
  have f: "entities ?w' = []" "getCount ?w' = 0" "lastEntityId ?w' = 0"
    by (simp_all add: getCount_def)
  have n: "getEntityId (snd (create ?w')) (fst (create ?w')) = Inr 1"
    by (simp add: create_eq getEntityId_def)
  from ret em' h' c' f n show ?thesis by blast
qed

theorem reset_destroys_all_witness:
  "entities_valid (projr (destroy (Some 2) False (snd (create_n 3 (createWorld :: nat World)))))
   \<and> (\<exists>w'. reset (projr (destroy (Some 2) False (snd (create_n 3 (createWorld :: nat World))))) = Inr w'
          \<and> emitted w' = [OnEntityCreated 1, OnEntityCreated 2, OnEntityCreated 3,
                OnEntityDestroyed 2, OnEntityDestroyed 1, OnEntityDestroyed 3]
          \<and> entities w' = []
          \<and> getEntityId (snd (create w')) (fst (create w')) = Inr 1)"
proof -
  let ?W = "projr (destroy (Some 2) False (snd (create_n 3 (createWorld :: nat World))))"
  have ents: "entities ?W = [1, 2, 3]"
    by (simp add: world_eval)
  have em: "emitted ?W = [OnEntityCreated 1, OnEntityCreated 2, OnEntityCreated 3, OnEntityDestroyed 2]"
    by (simp add: world_eval)
  have heap: "isPendingDestroy ?W (Suc 0) = Inr False" "isPendingDestroy ?W 2 = Inr True"
    "isPendingDestroy ?W 3 = Inr False"
    by (simp_all add: world_eval)
  have v: "entities_valid ?W"
    using heap by (auto simp: entities_valid_def ents isPendingDestroy_def split: option.splits)
  from reset_destroys_all [OF v] obtain w' where
    "reset ?W = Inr w'"
    "emitted w' = emitted ?W @
       map OnEntityDestroyed (filter (\<lambda>a. isPendingDestroy ?W a = Inr False) (entities ?W))"
    "entities w' = []"
    "getEntityId (snd (create w')) (fst (create w')) = Inr 1"
    by blast
  then have "reset ?W = Inr w'
          \<and> emitted w' = [OnEntityCreated 1, OnEntityCreated 2, OnEntityCreated 3,
                OnEntityDestroyed 2, OnEntityDestroyed 1, OnEntityDestroyed 3]
          \<and> entities w' = []
          \<and> getEntityId (snd (create w')) (fst (create w')) = Inr 1"
    by (simp add: ents heap em)
  with v show ?thesis by blast
qed

section \<open>Lookup by id\<close>

lemma getById_loop_find:
  "\<forall>a \<in> set es. entityHeap w a \<noteq> None \<Longrightarrow>
   getById_loop i es w = Inr (find (\<lambda>a. getEntityId w a = Inr i) es)"
  by (induction es) (auto simp: getEntityId_def)

lemma cleanup_result:
  assumes "entities_valid w"
  shows "\<exists>flag w'. cleanup w = Inr (flag, w')
     \<and> entities w' = filter (\<lambda>a. isPendingDestroy w a = Inr False) (entities w)
     \<and> (\<forall>a. entityHeap w' a =
           (if a \<in> set (entities w) \<and> isPendingDestroy w a = Inr True then None
            else entityHeap w a))
     \<and> lastEntityId w' = lastEntityId w"
proof -
  from assms have dist: "distinct (entities w)"
    and alloc: "\<forall>a \<in> set (entities w). entityHeap w a \<noteq> None"
    by (simp_all add: entities_valid_def)
  from cleanup_loop_result [OF dist alloc, of 0] obtain w1 where
    "cleanup_loop (entities w) w 0 =
          Inr (filter (\<lambda>a. isPendingDestroy w a = Inr False) (entities w), w1,
               length (filter (\<lambda>a. isPendingDestroy w a = Inr True) (entities w)))"
    "\<forall>a. entityHeap w1 a =
          (if a \<in> set (entities w) \<and> isPendingDestroy w a = Inr True then None else entityHeap w a)"
    "lastEntityId w1 = lastEntityId w"
    by auto
  then show ?thesis by (simp add: cleanup_def)
qed

lemma destroy_result:
  assumes "entities_valid w" "p \<in> set (entities w)"
  shows "\<exists>w1. destroy (Some p) immediate w = Inr w1
     \<and> entities_valid w1
     \<and> set (entities w1) \<subseteq> set (entities w)
     \<and> (\<forall>a. a \<noteq> p \<longrightarrow> entityHeap w1 a = entityHeap w a)
     \<and> (p \<in> set (entities w1) \<longrightarrow> isPendingDestroy w1 p = Inr True)
     \<and> lastEntityId w1 = lastEntityId w"
proof -
  from assms obtain e where e: "entityHeap w p = Some e"
    by (auto simp: entities_valid_def)
  show ?thesis
  proof (cases "bPendingDestroy e")
    case True
    with e assms show ?thesis
      by (cases immediate)
        (auto simp: destroy_pending entities_valid_def isPendingDestroy_def distinct_removeAll)
  next
    case False
    with e assms show ?thesis
      by (cases immediate)
        (auto simp: destroy_live entities_valid_def isPendingDestroy_def Let_def distinct_removeAll)
  qed
qed

lemma getById_after_cleanup:
  assumes v: "entities_valid w" and ids: "distinct (map (getEntityId w) (entities w))"
    and p: "p \<in> set (entities w)" and i: "getEntityId w p = Inr i"
    and d: "destroy (Some p) immediate w = Inr w1" and c: "cleanup w1 = Inr (flag, w2)"
  shows "getById i w2 = Inr None"
proof -
  from destroy_result [OF v p, of immediate] d have
    v1: "entities_valid w1" and sub: "set (entities w1) \<subseteq> set (entities w)" and
    same1: "\<forall>a. a \<noteq> p \<longrightarrow> entityHeap w1 a = entityHeap w a" and
    pend: "p \<in> set (entities w1) \<longrightarrow> isPendingDestroy w1 p = Inr True"
    by auto
  from cleanup_result [OF v1] c have
    e2: "entities w2 = filter (\<lambda>a. isPendingDestroy w1 a = Inr False) (entities w1)" and
    h2: "\<forall>a. entityHeap w2 a =
           (if a \<in> set (entities w1) \<and> isPendingDestroy w1 a = Inr True then None
            else entityHeap w1 a)"
    by auto
  have notp: "p \<notin> set (entities w2)"
    using pend by (auto simp: e2)
  have surv: "entityHeap w2 a = entityHeap w a \<and> a \<in> set (entities w) \<and> a \<noteq> p"
    if "a \<in> set (entities w2)" for a
    using that notp sub same1 h2 by (auto simp: e2)
  have inj: "inj_on (getEntityId w) (set (entities w))"
    using ids by (simp add: distinct_map)
  have other: "getEntityId w2 a \<noteq> Inr i" if "a \<in> set (entities w2)" for a
  proof -
    from surv [OF that] have "getEntityId w2 a = getEntityId w a" "a \<in> set (entities w)" "a \<noteq> p"
      by (simp_all add: getEntityId_def)
    with inj p i show ?thesis by (metis inj_onD)
  qed
  have alloc2: "\<forall>a \<in> set (entities w2). entityHeap w2 a \<noteq> None"
    using surv v by (auto simp: entities_valid_def)
  have "find (\<lambda>a. getEntityId w2 a = Inr i) (entities w2) = None"
    using other by (simp add: find_None_iff)
  with getById_loop_find [OF alloc2] show ?thesis
    by (simp add: getById_def)
qed


text \<open>
  C8. \<^verbatim>\<open>getById\<close> returns the null pointer for id 0 and for an id above
  \<^verbatim>\<open>lastEntityId\<close>. In a valid world whose entities have distinct ids, after an entity
  is destroyed (deferred or immediate) and \<^verbatim>\<open>cleanup\<close> has run, \<^verbatim>\<open>getById\<close> of its id
  returns the null pointer. For any other id, in a valid world, the result is the first
  entity of the sequence whose id is the one asked for (null when there is none); so for
  an id that an entity of the sequence has, the result is an entity of the sequence with
  this id.
\<close>

theorem getById_absent_or_found:
  "getById 0 w = Inr None
   \<and> (lastEntityId w < i \<longrightarrow> getById i w = Inr None)
   \<and> (entities_valid w \<and> distinct (map (getEntityId w) (entities w))
        \<and> p \<in> set (entities w) \<and> getEntityId w p = Inr i \<longrightarrow>
        (\<exists>w1 flag w2. destroy (Some p) immediate w = Inr w1 \<and> cleanup w1 = Inr (flag, w2)
            \<and> getById i w2 = Inr None))
   \<and> (entities_valid w \<and> i \<noteq> 0 \<and> i \<le> lastEntityId w \<longrightarrow>
        getById i w = Inr (find (\<lambda>a. getEntityId w a = Inr i) (entities w)))
   \<and> (entities_valid w \<and> i \<noteq> 0 \<and> i \<le> lastEntityId w
        \<and> (\<exists>a \<in> set (entities w). getEntityId w a = Inr i) \<longrightarrow>
        (\<exists>q. getById i w = Inr (Some q) \<and> q \<in> set (entities w) \<and> getEntityId w q = Inr i))"
proof -
  have a: "getById 0 w = Inr None" by (simp add: getById_def)
  have b: "getById i w = Inr None" if "lastEntityId w < i"
    using that by (simp add: getById_def)
  have c: "\<exists>w1 flag w2. destroy (Some p) immediate w = Inr w1 \<and> cleanup w1 = Inr (flag, w2)
            \<and> getById i w2 = Inr None"
    if h: "entities_valid w \<and> distinct (map (getEntityId w) (entities w))
        \<and> p \<in> set (entities w) \<and> getEntityId w p = Inr i"
  proof -
    from h have v: "entities_valid w" and ids: "distinct (map (getEntityId w) (entities w))"
      and p: "p \<in> set (entities w)" and i: "getEntityId w p = Inr i" by simp_all
    from destroy_result [OF v p, of immediate] obtain w1 where
      d: "destroy (Some p) immediate w = Inr w1" and v1: "entities_valid w1" by blast
    from cleanup_result [OF v1] obtain flag w2 where cl: "cleanup w1 = Inr (flag, w2)" by blast
    from getById_after_cleanup [OF v ids p i d cl] d cl show ?thesis by blast
  qed
  have d: "getById i w = Inr (find (\<lambda>a. getEntityId w a = Inr i) (entities w))"
    if h: "entities_valid w \<and> i \<noteq> 0 \<and> i \<le> lastEntityId w"
  proof -
    from h have "\<forall>a \<in> set (entities w). entityHeap w a \<noteq> None"
      by (simp add: entities_valid_def)
    from getById_loop_find [OF this] h show ?thesis
      by (simp add: getById_def not_less [symmetric])
  qed
  have e: "\<exists>q. getById i w = Inr (Some q) \<and> q \<in> set (entities w) \<and> getEntityId w q = Inr i"
    if h: "entities_valid w \<and> i \<noteq> 0 \<and> i \<le> lastEntityId w
        \<and> (\<exists>a \<in> set (entities w). getEntityId w a = Inr i)"
  proof -
    from h have "find (\<lambda>a. getEntityId w a = Inr i) (entities w) \<noteq> None"
      by (auto simp: find_None_iff)
    then obtain q where q: "find (\<lambda>a. getEntityId w a = Inr i) (entities w) = Some q" by auto
    then have "q \<in> set (entities w) \<and> getEntityId w q = Inr i"
      by (auto simp: find_Some_iff)
    with d h q show ?thesis by simp
  qed
  from a b c d e show ?thesis by blast
qed

theorem getById_absent_or_found_witness:
  "getById 0 (snd (create_n 3 (createWorld :: nat World))) = Inr None
   \<and> getById 4 (snd (create_n 3 (createWorld :: nat World))) = Inr None
   \<and> getById 2 (snd (create_n 3 (createWorld :: nat World))) = Inr (Some 2)
   \<and> (\<exists>w1 flag w2. destroy (Some 2) False (snd (create_n 3 (createWorld :: nat World))) = Inr w1
         \<and> cleanup w1 = Inr (flag, w2) \<and> getById 2 w2 = Inr None)"
proof -
  let ?W = "snd (create_n 3 (createWorld :: nat World))"
  have ents: "entities ?W = [1, 2, 3]" and last: "lastEntityId ?W = 3"
    by (simp_all add: world_eval)
  have ids: "getEntityId ?W (Suc 0) = Inr 1" "getEntityId ?W 2 = Inr 2" "getEntityId ?W 3 = Inr 3"
    by (simp_all add: world_eval getEntityId_def)
  have v: "entities_valid ?W"
    using ids by (auto simp: entities_valid_def ents getEntityId_def split: option.splits)
  have dids: "distinct (map (getEntityId ?W) (entities ?W))"
    by (simp add: ents ids)
  note t2 = getById_absent_or_found [where w = ?W and i = 2 and p = 2 and immediate = False]
  note t4 = getById_absent_or_found [where w = ?W and i = 4 and p = 2 and immediate = False]
  have a: "getById 0 ?W = Inr None" using t2 by blast
  have b: "getById 4 ?W = Inr None" using t4 by (simp add: last)
  have "getById 2 ?W = Inr (find (\<lambda>a. getEntityId ?W a = Inr 2) (entities ?W))"
    using t2 v by (simp add: last)
  then have c: "getById 2 ?W = Inr (Some 2)"
    by (simp add: ents ids)
  have d: "\<exists>w1 flag w2. destroy (Some 2) False ?W = Inr w1
         \<and> cleanup w1 = Inr (flag, w2) \<and> getById 2 w2 = Inr None"
    using t2 v dids by (simp add: ents ids)
  from a b c d show ?thesis by blast
qed

section \<open>Assigning components\<close>

text \<open>
  C4. For an allocated entity (whose container for \<open>T\<close>, if it has one, is allocated),
  \<^verbatim>\<open>assign<T>\<close> with the value \<open>data\<close> returns a handle and emits exactly one event, the
  \<^verbatim>\<open>OnComponentAssigned<T>\<close> of this entity and this handle. Afterwards \<^verbatim>\<open>get<T>()\<close> on
  the entity is this handle, it is valid, its value is \<open>data\<close>, and \<^verbatim>\<open>has<T>()\<close> holds.
  When the entity already had a component of type \<open>T\<close>, the handle is the old
  container's address, the entity's component map is unchanged, and nothing was
  allocated: the allocated containers are the same and the allocator has not moved.
  Otherwise one container is allocated and inserted.
\<close>

theorem assign_sets_component:
  assumes "entityHeap w this = Some e"
    and "\<forall>c. get e t = Some c \<longrightarrow> componentHeap w c \<noteq> None"
  shows "\<exists>h w' e'. assign this t data w = Inr (h, w')
     \<and> emitted w' = emitted w @ [OnComponentAssigned t this h]
     \<and> entityHeap w' this = Some e'
     \<and> get e' t = h \<and> isValid h \<and> handle_value w' h = Inr data \<and> has e' t
     \<and> (\<forall>c. get e t = Some c \<longrightarrow>
            h = Some c \<and> e' = e \<and> dom (componentHeap w') = dom (componentHeap w)
            \<and> nextPtr w' = nextPtr w)
     \<and> (get e t = None \<longrightarrow>
            h = Some (nextPtr w) \<and> components e' = components e @ [(t, nextPtr w)])"
proof (cases "map_of (components e) t")
  case None
  let ?c = "nextPtr w"
  let ?e' = "e\<lparr>components := components e @ [(t, ?c)]\<rparr>"
  let ?w1 = "w\<lparr>nextPtr := Suc ?c, componentHeap := (componentHeap w)(?c \<mapsto> data),
                entityHeap := (entityHeap w)(this \<mapsto> ?e')\<rparr>"
  let ?w' = "emit (OnComponentAssigned t this (Some ?c)) ?w1"
  have r: "assign this t data w = Inr (Some ?c, ?w')"
    using assms(1) None by (simp add: assign_def Let_def)
  have g: "get ?e' t = Some ?c"
    using None by (simp add: get_def map_add_def)
  have "emitted ?w' = emitted w @ [OnComponentAssigned t this (Some ?c)]"
    "entityHeap ?w' this = Some ?e'" "isValid (Some ?c)"
    "handle_value ?w' (Some ?c) = Inr data" "has ?e' t"
    using None by (simp_all add: isValid_def handle_value_def has_def map_add_def)
  with r g None show ?thesis
    by (simp add: get_def)
next
  case (Some c)
  with assms(2) obtain old where old: "componentHeap w c = Some old"
    by (auto simp: get_def)
  let ?w1 = "w\<lparr>componentHeap := (componentHeap w)(c \<mapsto> data)\<rparr>"
  let ?w' = "emit (OnComponentAssigned t this (Some c)) ?w1"
  have r: "assign this t data w = Inr (Some c, ?w')"
    using assms(1) Some old by (simp add: assign_def Let_def)
  have d: "dom (componentHeap ?w') = dom (componentHeap w)"
    using old by auto
  have "emitted ?w' = emitted w @ [OnComponentAssigned t this (Some c)]"
    "entityHeap ?w' this = Some e" "isValid (Some c)"
    "handle_value ?w' (Some c) = Inr data" "has e t" "nextPtr ?w' = nextPtr w"
    using Some assms(1) by (simp_all add: isValid_def handle_value_def has_def)
  with r d Some show ?thesis
    by (simp add: get_def)
qed


theorem assign_sets_component_witness:
  "\<exists>h w1 w2. assign 1 (TUser 0) (5::nat) (snd (create createWorld)) = Inr (h, w1)
      \<and> assign 1 (TUser 0) 7 w1 = Inr (h, w2)
      \<and> isValid h \<and> handle_value w1 h = Inr 5 \<and> handle_value w2 h = Inr 7
      \<and> dom (componentHeap w2) = dom (componentHeap w1)
      \<and> emitted w2 = [OnEntityCreated 1, OnComponentAssigned (TUser 0) 1 h,
            OnComponentAssigned (TUser 0) 1 h]"
proof -
  let ?W = "snd (create (createWorld :: nat World))"
  let ?e = "\<lparr>components = [], id' = 1, bPendingDestroy = False\<rparr>"
  have h0: "entityHeap ?W 1 = Some ?e" and em0: "emitted ?W = [OnEntityCreated 1]"
    by (simp_all add: create_eq createWorld_def)
  have g0: "\<forall>c. get ?e (TUser 0) = Some c \<longrightarrow> componentHeap ?W c \<noteq> None"
    by (simp add: get_def)
  from assign_sets_component [OF h0 g0, of 5] obtain h w1 e1 where
    a1: "assign 1 (TUser 0) 5 ?W = Inr (h, w1)" and
    em1: "emitted w1 = emitted ?W @ [OnComponentAssigned (TUser 0) 1 h]" and
    h1: "entityHeap w1 1 = Some e1" and g1: "get e1 (TUser 0) = h" and
    v1: "isValid h" and hv1: "handle_value w1 h = Inr 5"
    by blast
  from v1 obtain c where c: "h = Some c" by (auto simp: isValid_def)
  have g1': "\<forall>c'. get e1 (TUser 0) = Some c' \<longrightarrow> componentHeap w1 c' \<noteq> None"
    using hv1 g1 c by (auto simp: handle_value_def split: option.splits)
  from assign_sets_component [OF h1 g1', of 7] obtain h2 w2 where
    a2: "assign 1 (TUser 0) 7 w1 = Inr (h2, w2)" and
    em2: "emitted w2 = emitted w1 @ [OnComponentAssigned (TUser 0) 1 h2]" and
    hv2: "handle_value w2 h2 = Inr 7" and
    same: "\<forall>c'. get e1 (TUser 0) = Some c' \<longrightarrow>
            h2 = Some c' \<and> dom (componentHeap w2) = dom (componentHeap w1)"
    by blast
  from same g1 c have eq: "h2 = h" and d: "dom (componentHeap w2) = dom (componentHeap w1)"
    by simp_all
  from a1 a2 v1 hv1 hv2 d em1 em2 em0 eq show ?thesis
    by auto
qed

section \<open>Iterating the views\<close>

lemma has_types_all: "has_types e t types = (\<forall>x \<in> set (t # types). has e x)"
  by (induction e t types rule: has_types.induct) auto

lemma filter_drop_takeWhile:
  "filter Q (drop (length (takeWhile (\<lambda>a. \<not> Q a) xs)) xs) = filter Q xs"
  by (induction xs) auto

lemma get_iter_at:
  "\<not> bIsEnd it \<Longrightarrow> index it < length (entities w) \<Longrightarrow>
   get_iter w it = Some (entities w ! index it)"
  by (simp add: get_iter_def isEnd_def getCount_def getByIndex_def)

lemma EntityComponentIterator_skips_at:
  assumes "\<forall>a \<in> set (entities w). entityHeap w a \<noteq> None"
    and "\<not> bIsEnd it" and "index it < length (entities w)"
    and "bIncludePendingDestroy it = incl"
  shows "EntityComponentIterator_skips w t types it =
           Inr (\<not> each_selects w t types incl (entities w ! index it))"
proof -
  from assms(1,3) obtain e where "entityHeap w (entities w ! index it) = Some e"
    by (metis nth_mem not_None_eq)
  with assms show ?thesis
    by (auto simp: EntityComponentIterator_skips_def get_iter_at each_selects_def)
qed

lemma EntityComponentIterator_while_eq:
  assumes "\<forall>a \<in> set (entities w). entityHeap w a \<noteq> None"
  shows "\<not> bIsEnd it \<Longrightarrow> bIncludePendingDestroy it = incl \<Longrightarrow> index it \<le> length (entities w) \<Longrightarrow>
     EntityComponentIterator_while w t types it =
       Inr (it\<lparr>index := index it +
              length (takeWhile (\<lambda>a. \<not> each_selects w t types incl a) (drop (index it) (entities w)))\<rparr>)"
proof (induction "length (entities w) - index it" arbitrary: it)
  case 0
  then have "index it = length (entities w)" by simp
  then show ?case
    by (subst EntityComponentIterator_while.simps) (simp add: getCount_def)
next
  case (Suc k)
  then have lt: "index it < length (entities w)" by simp
  note sk = EntityComponentIterator_skips_at [OF assms Suc.prems(1) lt Suc.prems(2), of t types]
  have dr: "drop (index it) (entities w) = entities w ! index it # drop (Suc (index it)) (entities w)"
    using lt by (simp add: Cons_nth_drop_Suc)
  show ?case
  proof (cases "each_selects w t types incl (entities w ! index it)")
    case True
    then show ?thesis
      using lt sk by (subst EntityComponentIterator_while.simps) (simp add: getCount_def dr)
  next
    case False
    let ?it1 = "it\<lparr>index := index it + 1\<rparr>"
    have "k = length (entities w) - index ?it1" using Suc.hyps(2) by simp
    from Suc.hyps(1) [OF this] Suc.prems lt have
      "EntityComponentIterator_while w t types ?it1 =
        Inr (?it1\<lparr>index := index ?it1 +
          length (takeWhile (\<lambda>a. \<not> each_selects w t types incl a) (drop (index ?it1) (entities w)))\<rparr>)"
      by simp
    then show ?thesis
      using lt sk False by (subst EntityComponentIterator_while.simps) (simp add: getCount_def dr)
  qed
qed

lemma EntityComponentIterator_inc_eq:
  assumes "\<forall>a \<in> set (entities w). entityHeap w a \<noteq> None"
    and "\<not> bIsEnd it" and "bIncludePendingDestroy it = incl" and "index it < length (entities w)"
  shows "EntityComponentIterator_inc w t types it =
     Inr (it\<lparr>index := Suc (index it) +
              length (takeWhile (\<lambda>a. \<not> each_selects w t types incl a)
                 (drop (Suc (index it)) (entities w))),
            bIsEnd := (length (entities w) \<le> Suc (index it) +
              length (takeWhile (\<lambda>a. \<not> each_selects w t types incl a)
                 (drop (Suc (index it)) (entities w))))\<rparr>)"
proof -
  let ?it1 = "it\<lparr>index := index it + 1\<rparr>"
  have "EntityComponentIterator_while w t types ?it1 =
        Inr (?it1\<lparr>index := index ?it1 +
          length (takeWhile (\<lambda>a. \<not> each_selects w t types incl a) (drop (index ?it1) (entities w)))\<rparr>)"
    using assms(2-4) by (intro EntityComponentIterator_while_eq [OF assms(1)]) simp_all
  then show ?thesis
    using assms(2) by (simp add: EntityComponentIterator_inc_def getCount_def)
qed

lemma EntityComponentView_for_end:
  "isEnd w it \<Longrightarrow> isEnd w lastItr \<Longrightarrow>
   EntityComponentView_for w t types it lastItr acc = Some (Inr acc)"
  by (subst EntityComponentView_for.simps) (simp add: neq_iter_def)

lemma EntityComponentView_for_eq:
  assumes "\<forall>a \<in> set (entities w). entityHeap w a \<noteq> None"
    and "bIsEnd lastItr" and "index lastItr = length (entities w)"
  shows "\<not> bIsEnd it \<Longrightarrow> bIncludePendingDestroy it = incl \<Longrightarrow> index it < length (entities w) \<Longrightarrow>
     each_selects w t types incl (entities w ! index it) \<Longrightarrow>
     EntityComponentView_for w t types it lastItr acc =
       Some (Inr (acc @ map Some (filter (each_selects w t types incl) (drop (index it) (entities w)))))"
proof (induction "length (entities w) - index it" arbitrary: it acc rule: less_induct)
  case less
  let ?Q = "each_selects w t types incl"
  let ?es = "entities w"
  let ?i = "index it"
  let ?xs = "drop (Suc ?i) ?es"
  let ?m = "length (takeWhile (\<lambda>a. \<not> ?Q a) ?xs)"
  let ?j = "Suc ?i + ?m"
  let ?it1 = "it\<lparr>index := ?j, bIsEnd := (length ?es \<le> ?j)\<rparr>"
  have inc: "EntityComponentIterator_inc w t types it = Inr ?it1"
    using less.prems by (intro EntityComponentIterator_inc_eq [OF assms(1)]) simp_all
  have ne: "neq_iter w it lastItr"
    using less.prems assms(2,3) by (simp add: neq_iter_def isEnd_def getCount_def)
  have cur: "get_iter w it = Some (?es ! ?i)"
    using less.prems by (simp add: get_iter_at)
  have step: "EntityComponentView_for w t types it lastItr acc =
      EntityComponentView_for w t types ?it1 lastItr (acc @ [Some (?es ! ?i)])"
    by (subst EntityComponentView_for.simps) (simp add: ne inc cur)
  have dr: "drop ?i ?es = ?es ! ?i # ?xs"
    using less.prems by (simp add: Cons_nth_drop_Suc)
  have fl: "filter ?Q (drop ?i ?es) = ?es ! ?i # filter ?Q (drop ?j ?es)"
  proof -
    have "filter ?Q (drop ?m ?xs) = filter ?Q ?xs" by (rule filter_drop_takeWhile)
    moreover have "drop ?m ?xs = drop ?j ?es" by (simp add: add.commute)
    ultimately show ?thesis using less.prems dr by simp
  qed
  show ?case
  proof (cases "?j < length ?es")
    case False
    then have "isEnd w ?it1" by (simp add: isEnd_def)
    moreover have "isEnd w lastItr" using assms(2) by (simp add: isEnd_def)
    ultimately have "EntityComponentView_for w t types ?it1 lastItr (acc @ [Some (?es ! ?i)]) =
        Some (Inr (acc @ [Some (?es ! ?i)]))"
      by (rule EntityComponentView_for_end)
    moreover from False have "drop ?j ?es = []" by simp
    ultimately show ?thesis using step fl by simp
  next
    case True
    then have m: "?m < length ?xs" by simp
    have "\<not> \<not> ?Q (?xs ! ?m)" using m by (rule nth_length_takeWhile)
    moreover have "?xs ! ?m = ?es ! ?j" using True by (simp add: add.commute)
    ultimately have q: "?Q (?es ! index ?it1)" by simp
    have "EntityComponentView_for w t types ?it1 lastItr (acc @ [Some (?es ! ?i)]) =
        Some (Inr ((acc @ [Some (?es ! ?i)]) @ map Some (filter ?Q (drop (index ?it1) ?es))))"
      using True less.prems q by (intro less.hyps) simp_all
    then show ?thesis using step fl by simp
  qed
qed


lemma EntityComponentView_first_at:
  assumes "\<forall>a \<in> set (entities w). entityHeap w a \<noteq> None"
    and "\<not> bIsEnd it" and "index it < length (entities w)"
    and "bIncludePendingDestroy it = incl"
  shows "EntityComponentView_first w t types it =
           Inr (\<not> each_selects w t types incl (entities w ! index it))"
proof -
  from assms(1,3) obtain e where "entityHeap w (entities w ! index it) = Some e"
    by (metis nth_mem not_None_eq)
  with assms show ?thesis
    by (auto simp: EntityComponentView_first_def get_iter_at each_selects_def)
qed

lemma each_visits_eq:
  assumes alloc: "\<forall>a \<in> set (entities w). entityHeap w a \<noteq> None"
  shows "each_visits w t types incl =
           Some (Inr (map Some (filter (each_selects w t types incl) (entities w))))"
proof (cases "entities w = []")
  case True
  let ?first = "\<lparr>bIsEnd = True, index = 0, bIncludePendingDestroy = incl\<rparr>"
  let ?last = "\<lparr>bIsEnd = True, index = 0, bIncludePendingDestroy = incl\<rparr>"
  let ?it1 = "\<lparr>bIsEnd = True, index = Suc 0, bIncludePendingDestroy = incl\<rparr>"
  have w1: "EntityComponentIterator_while w t types (?first\<lparr>index := 1\<rparr>) = Inr (?first\<lparr>index := 1\<rparr>)"
    using True by (subst EntityComponentIterator_while.simps) (simp add: getCount_def)
  have v: "each_view w t types incl = Inr (?it1, ?last)"
    using True w1
    by (simp add: each_view_def EntityComponentView_new_def EntityComponentView_first_def
        EntityIterator_new_def getCount_def get_iter_def isEnd_def EntityComponentIterator_inc_def)
  have "EntityComponentView_for w t types ?it1 ?last [] = Some (Inr [])"
    by (rule EntityComponentView_for_end) (simp_all add: isEnd_def)
  with v True show ?thesis by (simp add: each_visits_def)
next
  case False
  let ?Q = "each_selects w t types incl"
  let ?es = "entities w"
  let ?first = "\<lparr>bIsEnd = False, index = 0, bIncludePendingDestroy = incl\<rparr>"
  let ?last = "\<lparr>bIsEnd = True, index = length ?es, bIncludePendingDestroy = incl\<rparr>"
  from False have pos: "0 < length ?es" by simp
  have nf: "EntityIterator_new w 0 False incl = ?first"
    using pos by (simp add: EntityIterator_new_def getCount_def)
  have nl: "EntityIterator_new w (getCount w) True incl = ?last"
    by (simp add: EntityIterator_new_def getCount_def)
  have c: "EntityComponentView_first w t types ?first = Inr (\<not> ?Q (?es ! 0))"
    using EntityComponentView_first_at [OF alloc, of ?first incl t types] pos by simp
  note for_eq = EntityComponentView_for_eq [OF alloc, of ?last _ incl t types "[]"]
  show ?thesis
  proof (cases "?Q (?es ! 0)")
    case True
    have v: "each_view w t types incl = Inr (?first, ?last)"
      using True c by (simp add: each_view_def nf nl EntityComponentView_new_def)
    have "EntityComponentView_for w t types ?first ?last [] =
        Some (Inr ([] @ map Some (filter ?Q (drop (index ?first) ?es))))"
      using True pos by (intro for_eq) simp_all
    with v show ?thesis by (simp add: each_visits_def)
  next
    case notQ: False
    let ?xs = "drop (Suc 0) ?es"
    let ?m = "length (takeWhile (\<lambda>a. \<not> ?Q a) ?xs)"
    let ?j = "Suc 0 + ?m"
    let ?it1 = "?first\<lparr>index := ?j, bIsEnd := (length ?es \<le> ?j)\<rparr>"
    have inc: "EntityComponentIterator_inc w t types ?first = Inr ?it1"
      using EntityComponentIterator_inc_eq [OF alloc, of ?first incl t types] pos by simp
    have v: "each_view w t types incl = Inr (?it1, ?last)"
      using notQ c inc by (simp add: each_view_def nf nl EntityComponentView_new_def)
    have dr: "?es = ?es ! 0 # ?xs"
      using pos by (metis Cons_nth_drop_Suc drop0 One_nat_def)
    have fl: "filter ?Q ?es = filter ?Q (drop ?j ?es)"
    proof -
      have "filter ?Q (drop ?m ?xs) = filter ?Q ?xs" by (rule filter_drop_takeWhile)
      moreover have "drop ?m ?xs = drop ?j ?es" by (simp add: add.commute)
      moreover have "filter ?Q ?es = filter ?Q ?xs" using notQ by (subst dr) simp
      ultimately show ?thesis by simp
    qed
    show ?thesis
    proof (cases "?j < length ?es")
      case False
      then have "isEnd w ?it1" by (simp add: isEnd_def)
      moreover have "isEnd w ?last" by (simp add: isEnd_def)
      ultimately have "EntityComponentView_for w t types ?it1 ?last [] = Some (Inr [])"
        by (rule EntityComponentView_for_end)
      moreover from False have "drop ?j ?es = []" by simp
      ultimately show ?thesis using v fl by (simp add: each_visits_def)
    next
      case True
      then have m: "?m < length ?xs" by simp
      have "\<not> \<not> ?Q (?xs ! ?m)" using m by (rule nth_length_takeWhile)
      moreover have "?xs ! ?m = ?es ! ?j" using True by (simp add: add.commute)
      ultimately have q: "?Q (?es ! index ?it1)" by simp
      have "EntityComponentView_for w t types ?it1 ?last [] =
          Some (Inr ([] @ map Some (filter ?Q (drop (index ?it1) ?es))))"
        using True q by (intro for_eq) simp_all
      then show ?thesis using v fl by (simp add: each_visits_def)
    qed
  qed
qed

lemma viewFunc_calls_eq:
  "\<forall>a \<in> set xs. entityHeap w a \<noteq> None \<Longrightarrow>
   \<exists>calls. viewFunc_calls w types (map Some xs) = Inr calls \<and> map fst calls = xs
      \<and> (\<forall>call \<in> set calls. \<exists>e. entityHeap w (fst call) = Some e \<and> snd call = map (get e) types)"
proof (induction xs)
  case Nil
  then show ?case by simp
next
  case (Cons a xs)
  then obtain e where e: "entityHeap w a = Some e" by auto
  from Cons obtain calls where
    "viewFunc_calls w types (map Some xs) = Inr calls" "map fst calls = xs"
    "\<forall>call \<in> set calls. \<exists>e. entityHeap w (fst call) = Some e \<and> snd call = map (get e) types"
    by auto
  with e show ?case by (simp add: viewFunc_call_def)
qed


lemma EntityIterator_skips_at:
  assumes "\<forall>a \<in> set (entities w). entityHeap w a \<noteq> None"
    and "\<not> bIsEnd it" and "index it < length (entities w)"
    and "bIncludePendingDestroy it = incl"
  shows "EntityIterator_skips w it =
           Inr (\<not> all_selects w incl (entities w ! index it))"
proof -
  from assms(1,3) obtain e where "entityHeap w (entities w ! index it) = Some e"
    by (metis nth_mem not_None_eq)
  with assms show ?thesis
    by (auto simp: EntityIterator_skips_def get_iter_at all_selects_def)
qed

lemma EntityIterator_while_eq:
  assumes "\<forall>a \<in> set (entities w). entityHeap w a \<noteq> None"
  shows "\<not> bIsEnd it \<Longrightarrow> bIncludePendingDestroy it = incl \<Longrightarrow> index it \<le> length (entities w) \<Longrightarrow>
     EntityIterator_while w it =
       Inr (it\<lparr>index := index it +
              length (takeWhile (\<lambda>a. \<not> all_selects w incl a) (drop (index it) (entities w)))\<rparr>)"
proof (induction "length (entities w) - index it" arbitrary: it)
  case 0
  then have "index it = length (entities w)" by simp
  then show ?case
    by (subst EntityIterator_while.simps) (simp add: getCount_def)
next
  case (Suc k)
  then have lt: "index it < length (entities w)" by simp
  note sk = EntityIterator_skips_at [OF assms Suc.prems(1) lt Suc.prems(2)]
  have dr: "drop (index it) (entities w) = entities w ! index it # drop (Suc (index it)) (entities w)"
    using lt by (simp add: Cons_nth_drop_Suc)
  show ?case
  proof (cases "all_selects w incl (entities w ! index it)")
    case True
    then show ?thesis
      using lt sk by (subst EntityIterator_while.simps) (simp add: getCount_def dr)
  next
    case False
    let ?it1 = "it\<lparr>index := index it + 1\<rparr>"
    have "k = length (entities w) - index ?it1" using Suc.hyps(2) by simp
    from Suc.hyps(1) [OF this] Suc.prems lt have
      "EntityIterator_while w ?it1 =
        Inr (?it1\<lparr>index := index ?it1 +
          length (takeWhile (\<lambda>a. \<not> all_selects w incl a) (drop (index ?it1) (entities w)))\<rparr>)"
      by simp
    then show ?thesis
      using lt sk False by (subst EntityIterator_while.simps) (simp add: getCount_def dr)
  qed
qed

lemma EntityIterator_inc_eq:
  assumes "\<forall>a \<in> set (entities w). entityHeap w a \<noteq> None"
    and "\<not> bIsEnd it" and "bIncludePendingDestroy it = incl" and "index it < length (entities w)"
  shows "EntityIterator_inc w it =
     Inr (it\<lparr>index := Suc (index it) +
              length (takeWhile (\<lambda>a. \<not> all_selects w incl a)
                 (drop (Suc (index it)) (entities w))),
            bIsEnd := (length (entities w) \<le> Suc (index it) +
              length (takeWhile (\<lambda>a. \<not> all_selects w incl a)
                 (drop (Suc (index it)) (entities w))))\<rparr>)"
proof -
  let ?it1 = "it\<lparr>index := index it + 1\<rparr>"
  have "EntityIterator_while w ?it1 =
        Inr (?it1\<lparr>index := index ?it1 +
          length (takeWhile (\<lambda>a. \<not> all_selects w incl a) (drop (index ?it1) (entities w)))\<rparr>)"
    using assms(2-4) by (intro EntityIterator_while_eq [OF assms(1)]) simp_all
  then show ?thesis
    using assms(2) by (simp add: EntityIterator_inc_def getCount_def)
qed

lemma EntityView_for_end:
  "isEnd w it \<Longrightarrow> isEnd w lastItr \<Longrightarrow>
   EntityView_for w it lastItr acc = Some (Inr acc)"
  by (subst EntityView_for.simps) (simp add: neq_iter_def)

lemma EntityView_for_eq:
  assumes "\<forall>a \<in> set (entities w). entityHeap w a \<noteq> None"
    and "bIsEnd lastItr" and "index lastItr = length (entities w)"
  shows "\<not> bIsEnd it \<Longrightarrow> bIncludePendingDestroy it = incl \<Longrightarrow> index it < length (entities w) \<Longrightarrow>
     all_selects w incl (entities w ! index it) \<Longrightarrow>
     EntityView_for w it lastItr acc =
       Some (Inr (acc @ map Some (filter (all_selects w incl) (drop (index it) (entities w)))))"
proof (induction "length (entities w) - index it" arbitrary: it acc rule: less_induct)
  case less
  let ?Q = "all_selects w incl"
  let ?es = "entities w"
  let ?i = "index it"
  let ?xs = "drop (Suc ?i) ?es"
  let ?m = "length (takeWhile (\<lambda>a. \<not> ?Q a) ?xs)"
  let ?j = "Suc ?i + ?m"
  let ?it1 = "it\<lparr>index := ?j, bIsEnd := (length ?es \<le> ?j)\<rparr>"
  have inc: "EntityIterator_inc w it = Inr ?it1"
    using less.prems by (intro EntityIterator_inc_eq [OF assms(1)]) simp_all
  have ne: "neq_iter w it lastItr"
    using less.prems assms(2,3) by (simp add: neq_iter_def isEnd_def getCount_def)
  have cur: "get_iter w it = Some (?es ! ?i)"
    using less.prems by (simp add: get_iter_at)
  have step: "EntityView_for w it lastItr acc =
      EntityView_for w ?it1 lastItr (acc @ [Some (?es ! ?i)])"
    by (subst EntityView_for.simps) (simp add: ne inc cur)
  have dr: "drop ?i ?es = ?es ! ?i # ?xs"
    using less.prems by (simp add: Cons_nth_drop_Suc)
  have fl: "filter ?Q (drop ?i ?es) = ?es ! ?i # filter ?Q (drop ?j ?es)"
  proof -
    have "filter ?Q (drop ?m ?xs) = filter ?Q ?xs" by (rule filter_drop_takeWhile)
    moreover have "drop ?m ?xs = drop ?j ?es" by (simp add: add.commute)
    ultimately show ?thesis using less.prems dr by simp
  qed
  show ?case
  proof (cases "?j < length ?es")
    case False
    then have "isEnd w ?it1" by (simp add: isEnd_def)
    moreover have "isEnd w lastItr" using assms(2) by (simp add: isEnd_def)
    ultimately have "EntityView_for w ?it1 lastItr (acc @ [Some (?es ! ?i)]) =
        Some (Inr (acc @ [Some (?es ! ?i)]))"
      by (rule EntityView_for_end)
    moreover from False have "drop ?j ?es = []" by simp
    ultimately show ?thesis using step fl by simp
  next
    case True
    then have m: "?m < length ?xs" by simp
    have "\<not> \<not> ?Q (?xs ! ?m)" using m by (rule nth_length_takeWhile)
    moreover have "?xs ! ?m = ?es ! ?j" using True by (simp add: add.commute)
    ultimately have q: "?Q (?es ! index ?it1)" by simp
    have "EntityView_for w ?it1 lastItr (acc @ [Some (?es ! ?i)]) =
        Some (Inr ((acc @ [Some (?es ! ?i)]) @ map Some (filter ?Q (drop (index ?it1) ?es))))"
      using True less.prems q by (intro less.hyps) simp_all
    then show ?thesis using step fl by simp
  qed
qed


lemma all_visits_eq:
  assumes alloc: "\<forall>a \<in> set (entities w). entityHeap w a \<noteq> None"
  shows "all_visits w incl =
           Some (Inr (map Some (filter (all_selects w incl) (entities w))))"
proof (cases "entities w = []")
  case True
  let ?first = "\<lparr>bIsEnd = True, index = 0, bIncludePendingDestroy = incl\<rparr>"
  let ?last = "\<lparr>bIsEnd = True, index = 0, bIncludePendingDestroy = incl\<rparr>"
  let ?it1 = "\<lparr>bIsEnd = True, index = Suc 0, bIncludePendingDestroy = incl\<rparr>"
  have w1: "EntityIterator_while w (?first\<lparr>index := 1\<rparr>) = Inr (?first\<lparr>index := 1\<rparr>)"
    using True by (subst EntityIterator_while.simps) (simp add: getCount_def)
  have v: "all_view w incl = Inr (?it1, ?last)"
    using True w1
    by (simp add: all_view_def EntityView_new_def EntityIterator_skips_def
        EntityIterator_new_def getCount_def get_iter_def isEnd_def EntityIterator_inc_def)
  have "EntityView_for w ?it1 ?last [] = Some (Inr [])"
    by (rule EntityView_for_end) (simp_all add: isEnd_def)
  with v True show ?thesis by (simp add: all_visits_def)
next
  case False
  let ?Q = "all_selects w incl"
  let ?es = "entities w"
  let ?first = "\<lparr>bIsEnd = False, index = 0, bIncludePendingDestroy = incl\<rparr>"
  let ?last = "\<lparr>bIsEnd = True, index = length ?es, bIncludePendingDestroy = incl\<rparr>"
  from False have pos: "0 < length ?es" by simp
  have nf: "EntityIterator_new w 0 False incl = ?first"
    using pos by (simp add: EntityIterator_new_def getCount_def)
  have nl: "EntityIterator_new w (getCount w) True incl = ?last"
    by (simp add: EntityIterator_new_def getCount_def)
  have c: "EntityIterator_skips w ?first = Inr (\<not> ?Q (?es ! 0))"
    using EntityIterator_skips_at [OF alloc, of ?first incl] pos by simp
  note for_eq = EntityView_for_eq [OF alloc, of ?last _ incl "[]"]
  show ?thesis
  proof (cases "?Q (?es ! 0)")
    case True
    have v: "all_view w incl = Inr (?first, ?last)"
      using True c by (simp add: all_view_def nf nl EntityView_new_def)
    have "EntityView_for w ?first ?last [] =
        Some (Inr ([] @ map Some (filter ?Q (drop (index ?first) ?es))))"
      using True pos by (intro for_eq) simp_all
    with v show ?thesis by (simp add: all_visits_def)
  next
    case notQ: False
    let ?xs = "drop (Suc 0) ?es"
    let ?m = "length (takeWhile (\<lambda>a. \<not> ?Q a) ?xs)"
    let ?j = "Suc 0 + ?m"
    let ?it1 = "?first\<lparr>index := ?j, bIsEnd := (length ?es \<le> ?j)\<rparr>"
    have inc: "EntityIterator_inc w ?first = Inr ?it1"
      using EntityIterator_inc_eq [OF alloc, of ?first incl] pos by simp
    have v: "all_view w incl = Inr (?it1, ?last)"
      using notQ c inc by (simp add: all_view_def nf nl EntityView_new_def)
    have dr: "?es = ?es ! 0 # ?xs"
      using pos by (metis Cons_nth_drop_Suc drop0 One_nat_def)
    have fl: "filter ?Q ?es = filter ?Q (drop ?j ?es)"
    proof -
      have "filter ?Q (drop ?m ?xs) = filter ?Q ?xs" by (rule filter_drop_takeWhile)
      moreover have "drop ?m ?xs = drop ?j ?es" by (simp add: add.commute)
      moreover have "filter ?Q ?es = filter ?Q ?xs" using notQ by (subst dr) simp
      ultimately show ?thesis by simp
    qed
    show ?thesis
    proof (cases "?j < length ?es")
      case False
      then have "isEnd w ?it1" by (simp add: isEnd_def)
      moreover have "isEnd w ?last" by (simp add: isEnd_def)
      ultimately have "EntityView_for w ?it1 ?last [] = Some (Inr [])"
        by (rule EntityView_for_end)
      moreover from False have "drop ?j ?es = []" by simp
      ultimately show ?thesis using v fl by (simp add: all_visits_def)
    next
      case True
      then have m: "?m < length ?xs" by simp
      have "\<not> \<not> ?Q (?xs ! ?m)" using m by (rule nth_length_takeWhile)
      moreover have "?xs ! ?m = ?es ! ?j" using True by (simp add: add.commute)
      ultimately have q: "?Q (?es ! index ?it1)" by simp
      have "EntityView_for w ?it1 ?last [] =
          Some (Inr ([] @ map Some (filter ?Q (drop (index ?it1) ?es))))"
        using True q by (intro for_eq) simp_all
      then show ?thesis using v fl by (simp add: all_visits_def)
    qed
  qed
qed



text \<open>
  C6. In a world whose sequence holds allocated entities, the range-based loop over
  \<^verbatim>\<open>each<T, Types...>(includePendingDestroy)\<close> ends and its body sees, in sequence
  order, exactly the entities of the sequence that have every one of the types and
  that are not pending destroy, or are, when pending-destroy entities are included. The
  eager overload calls \<^verbatim>\<open>viewFunc\<close> on these entities in this order, each with the
  handles \<^verbatim>\<open>get<T>()\<close> of the entity. The loop over \<^verbatim>\<open>all(includePendingDestroy)\<close> sees,
  in sequence order, the entities of the sequence under the same rule on pending
  destroy.
\<close>

theorem views_visit_selected:
  assumes "\<forall>a \<in> set (entities w). entityHeap w a \<noteq> None"
  shows "each_visits w t types incl =
           Some (Inr (map Some (filter (each_selects w t types incl) (entities w))))
     \<and> (\<exists>calls. each_calls w t types incl = Some (Inr calls)
           \<and> map fst calls = filter (each_selects w t types incl) (entities w)
           \<and> (\<forall>call \<in> set calls. \<exists>e. entityHeap w (fst call) = Some e
                  \<and> snd call = map (get e) (t # types)))
     \<and> all_visits w incl = Some (Inr (map Some (filter (all_selects w incl) (entities w))))
     \<and> (\<forall>a \<in> set (entities w).
           each_selects w t types incl a =
             (\<exists>e. entityHeap w a = Some e \<and> (\<forall>x \<in> set (t # types). has e x)
                  \<and> (incl \<or> \<not> bPendingDestroy e))
           \<and> all_selects w incl a =
             (\<exists>e. entityHeap w a = Some e \<and> (incl \<or> \<not> bPendingDestroy e)))"
proof -
  let ?sel = "filter (each_selects w t types incl) (entities w)"
  have a: "each_visits w t types incl = Some (Inr (map Some ?sel))"
    using assms by (rule each_visits_eq)
  have "\<forall>a \<in> set ?sel. entityHeap w a \<noteq> None"
    using assms by simp
  from viewFunc_calls_eq [OF this, of "t # types"] obtain calls where
    c: "viewFunc_calls w (t # types) (map Some ?sel) = Inr calls" "map fst calls = ?sel"
      "\<forall>call \<in> set calls. \<exists>e. entityHeap w (fst call) = Some e \<and> snd call = map (get e) (t # types)"
    by blast
  have b: "\<exists>calls. each_calls w t types incl = Some (Inr calls)
           \<and> map fst calls = ?sel
           \<and> (\<forall>call \<in> set calls. \<exists>e. entityHeap w (fst call) = Some e
                  \<and> snd call = map (get e) (t # types))"
    using c by (simp add: each_calls_def a)
  have d: "all_visits w incl = Some (Inr (map Some (filter (all_selects w incl) (entities w))))"
    using assms by (rule all_visits_eq)
  have e: "\<forall>a \<in> set (entities w).
           each_selects w t types incl a =
             (\<exists>e. entityHeap w a = Some e \<and> (\<forall>x \<in> set (t # types). has e x)
                  \<and> (incl \<or> \<not> bPendingDestroy e))
           \<and> all_selects w incl a =
             (\<exists>e. entityHeap w a = Some e \<and> (incl \<or> \<not> bPendingDestroy e))"
    by (auto simp: each_selects_def all_selects_def has_types_all split: option.splits)
  from a b d e show ?thesis by blast
qed

theorem views_visit_selected_witness:
  "each_visits
     (projr (destroy (Some 2) False
        (snd (projr (assign 2 (TUser 0) 6
          (snd (projr (assign 1 (TUser 0) (5::nat) (snd (create_n 3 createWorld))))))))))
     (TUser 0) [] False = Some (Inr [Some 1])
   \<and> each_visits
     (projr (destroy (Some 2) False
        (snd (projr (assign 2 (TUser 0) 6
          (snd (projr (assign 1 (TUser 0) (5::nat) (snd (create_n 3 createWorld))))))))))
     (TUser 0) [] True = Some (Inr [Some 1, Some 2])
   \<and> all_visits
     (projr (destroy (Some 2) False
        (snd (projr (assign 2 (TUser 0) 6
          (snd (projr (assign 1 (TUser 0) (5::nat) (snd (create_n 3 createWorld))))))))))
     False = Some (Inr [Some 1, Some 3])"
proof -
  define W where "W = projr (destroy (Some 2) False
        (snd (projr (assign 2 (TUser 0) 6
          (snd (projr (assign 1 (TUser 0) (5::nat) (snd (create_n 3 createWorld)))))))))"
  have ents: "entities W = [1, 2, 3]"
    unfolding W_def by (simp add: world_eval assign_def)
  have heap:
    "entityHeap W (Suc 0) = Some \<lparr>components = [(TUser 0, 4)], id' = 1, bPendingDestroy = False\<rparr>"
    "entityHeap W 2 = Some \<lparr>components = [(TUser 0, 5)], id' = 2, bPendingDestroy = True\<rparr>"
    "entityHeap W 3 = Some \<lparr>components = [], id' = 3, bPendingDestroy = False\<rparr>"
    unfolding W_def by (simp_all add: world_eval assign_def)
  have v: "\<forall>a \<in> set (entities W). entityHeap W a \<noteq> None"
    by (simp add: ents heap)
  from views_visit_selected [OF v, of "TUser 0" "[]" False]
  have "each_visits W (TUser 0) [] False = Some (Inr [Some 1])"
    "all_visits W False = Some (Inr [Some 1, Some 3])"
    by (simp_all add: ents heap each_selects_def all_selects_def has_def)
  moreover from views_visit_selected [OF v, of "TUser 0" "[]" True]
  have "each_visits W (TUser 0) [] True = Some (Inr [Some 1, Some 2])"
    by (simp add: ents heap each_selects_def has_def)
  ultimately show ?thesis unfolding W_def by blast
qed

section \<open>Unsubscribing: what the code does\<close>

lemma unsubscribeAll_loop_identity:
  "unsubscribeAll_loop kvs sub w = Inr w' \<Longrightarrow> w' = w"
  by (induction kvs) (auto simp: Let_def split: if_splits)

lemma unsubscribeAll_identity:
  "unsubscribeAll sub w = Inr w' \<Longrightarrow> w' = w"
  unfolding unsubscribeAll_def by (rule unsubscribeAll_loop_identity)

text \<open>
  C2 says that \<^verbatim>\<open>unsubscribeAll(s)\<close> removes \<open>s\<close> from the vector of every type. The
  loop's \<open>kv\<close> is a copy, so whenever the call returns, the world is as it was
  (\<open>unsubscribeAll_identity\<close>). At the world where subscribers 1 and 2 are registered,
  in this order, for one type: \<^verbatim>\<open>unsubscribeAll(1)\<close> returns this same world, and an event
  of the type emitted afterwards is still received by 1, then by 2.
\<close>

theorem unsubscribeAll_leaves_subscriber:
  "subscribers (subscribe (TUser 0) 2 (subscribe (TUser 0) 1 (createWorld :: nat World))) =
     [(TUser 0, [1, 2])]
   \<and> unsubscribeAll 1 (subscribe (TUser 0) 2 (subscribe (TUser 0) 1 (createWorld :: nat World))) =
       Inr (subscribe (TUser 0) 2 (subscribe (TUser 0) 1 createWorld))
   \<and> received (emit (UserEvent 0 7)
        (projr (unsubscribeAll 1
           (subscribe (TUser 0) 2 (subscribe (TUser 0) 1 (createWorld :: nat World)))))) =
       [(1, UserEvent 0 7), (2, UserEvent 0 7)]"
  by (simp add: unsubscribeAll_def subscribe_def createWorld_def emit_eq subscribersOf_def)

text \<open>
  With \<open>found\<close> bound to \<^verbatim>\<open>subscribers.find(index)\<close>, the body of \<^verbatim>\<open>unsubscribe\<close> removes
  every entry of the subscriber from the type's vector, drops the map's entry when the
  vector becomes empty, and leaves the other types alone.
\<close>

lemma map_of_replace:
  "map_of (map (\<lambda>(k', l). if k' = k then (k', v) else (k', l)) xs) k'' =
     (if k'' = k then map_option (\<lambda>l. v) (map_of xs k) else map_of xs k'')"
  by (induction xs) auto

lemma map_of_erase:
  "map_of (filter (\<lambda>kv. fst kv \<noteq> k) xs) k'' = (if k'' = k then None else map_of xs k'')"
  by (induction xs) auto

lemma unsubscribe_with_lookup:
  "\<exists>w'. unsubscribe (subscribers_find w t) t s w = Inr w'
     \<and> subscribersOf w' t = removeAll s (subscribersOf w t)
     \<and> (removeAll s (subscribersOf w t) = [] \<longrightarrow> map_of (subscribers w') t = None)
     \<and> (\<forall>t'. t' \<noteq> t \<longrightarrow> map_of (subscribers w') t' = map_of (subscribers w) t')"
  by (cases "map_of (subscribers w) t")
    (auto simp: unsubscribe_def subscribers_find_def subscribersOf_def Let_def
       map_of_replace map_of_erase)

text \<open>
  C1 says that after \<^verbatim>\<open>subscribe<T>(s)\<close>, \<^verbatim>\<open>unsubscribe<T>(s)\<close> removes the entries of
  \<open>s\<close> from the vector of \<open>T\<close> and drops an entry that becomes empty. The function never
  looks \<open>T\<close> up: what it does is decided by \<open>found\<close>, which it does not bind. At the
  world where subscriber 1 is registered for one type: with \<open>found\<close> at the end, the
  world stays as it is and 1 stays registered; with \<open>found\<close> at the type's entry, which
  is what the lookup returns, the entry is dropped, also when \<open>index\<close> is another type's.
\<close>

theorem unsubscribe_reads_unbound_found:
  "subscribers (subscribe (TUser 0) 1 (createWorld :: nat World)) = [(TUser 0, [1])]
   \<and> unsubscribe None (TUser 0) 1 (subscribe (TUser 0) 1 (createWorld :: nat World)) =
       Inr (subscribe (TUser 0) 1 createWorld)
   \<and> subscribers_find (subscribe (TUser 0) 1 (createWorld :: nat World)) (TUser 0) = Some (TUser 0)
   \<and> unsubscribe (Some (TUser 0)) (TUser 0) 1 (subscribe (TUser 0) 1 (createWorld :: nat World)) =
       Inr (createWorld\<lparr>subscribers := []\<rparr>)
   \<and> unsubscribe (Some (TUser 0)) (TUser 5) 1 (subscribe (TUser 0) 1 (createWorld :: nat World)) =
       Inr (createWorld\<lparr>subscribers := []\<rparr>)"
  by (simp add: unsubscribe_def subscribers_find_def subscribe_def createWorld_def)

section \<open>Valid worlds\<close>

text \<open>
  The hypotheses of the theorems above on the sequence hold in the constructed world and
  are kept by every operation that returns.
\<close>

lemma createWorld_valid: "entities_valid createWorld \<and> entities_fresh createWorld"
  by (simp add: entities_valid_def entities_fresh_def createWorld_def)

lemma create_valid:
  assumes "entities_valid w" "entities_fresh w"
  shows "entities_valid (snd (create w)) \<and> entities_fresh (snd (create w))"
  using assms by (auto simp: entities_valid_def entities_fresh_def create_eq)

lemma destroy_valid:
  assumes "entities_valid w" "entities_fresh w" "destroy ent immediate w = Inr w'"
  shows "entities_valid w' \<and> entities_fresh w'"
proof (cases ent)
  case None
  with assms show ?thesis by (simp add: destroy_def)
next
  case (Some p)
  show ?thesis
  proof (cases "entityHeap w p")
    case None
    with Some assms show ?thesis by (simp add: destroy_dangling)
  next
    case e: (Some e)
    show ?thesis
    proof (cases "bPendingDestroy e")
      case True
      with e Some assms show ?thesis
        by (cases immediate)
          (auto simp: destroy_pending entities_valid_def entities_fresh_def distinct_removeAll)
    next
      case False
      with e Some assms show ?thesis
        by (cases immediate)
          (auto simp: destroy_live entities_valid_def entities_fresh_def Let_def distinct_removeAll)
    qed
  qed
qed

lemma cleanup_loop_nextPtr:
  "cleanup_loop es w count = Inr (kept, w', count') \<Longrightarrow> nextPtr w' = nextPtr w"
  by (induction es arbitrary: w count kept)
    (auto simp: deallocateEntity_def split: option.splits if_splits sum.splits)

lemma cleanup_valid:
  assumes "entities_valid w" "entities_fresh w" "cleanup w = Inr (flag, w')"
  shows "entities_valid w' \<and> entities_fresh w'"
proof -
  from assms(1) have dist: "distinct (entities w)"
    and alloc: "\<forall>a \<in> set (entities w). entityHeap w a \<noteq> None"
    by (simp_all add: entities_valid_def)
  from cleanup_loop_result [OF dist alloc, of 0] obtain w1 where
    r: "cleanup_loop (entities w) w 0 =
          Inr (filter (\<lambda>a. isPendingDestroy w a = Inr False) (entities w), w1,
               length (filter (\<lambda>a. isPendingDestroy w a = Inr True) (entities w)))" and
    h: "\<forall>a. entityHeap w1 a =
          (if a \<in> set (entities w) \<and> isPendingDestroy w a = Inr True then None else entityHeap w a)"
    by auto
  from r have n: "nextPtr w1 = nextPtr w" by (rule cleanup_loop_nextPtr)
  from r assms(3) have w': "w' = w1\<lparr>entities := filter (\<lambda>a. isPendingDestroy w a = Inr False) (entities w)\<rparr>"
    by (simp add: cleanup_def)
  show ?thesis
    using dist alloc h n assms(2) by (auto simp: w' entities_valid_def entities_fresh_def)
qed

lemma reset_valid:
  assumes "reset w = Inr w'"
  shows "entities_valid w' \<and> entities_fresh w'"
  using assms by (auto simp: reset_def entities_valid_def entities_fresh_def split: sum.splits)

lemma assign_valid:
  assumes "entities_valid w" "entities_fresh w" "assign this t data w = Inr (h, w')"
  shows "entities_valid w' \<and> entities_fresh w'"
  using assms
  by (auto simp: assign_def Let_def entities_valid_def entities_fresh_def less_Suc_eq
      split: option.splits)

lemma subscribe_valid:
  assumes "entities_valid w" "entities_fresh w"
  shows "entities_valid (subscribe t s w) \<and> entities_fresh (subscribe t s w)"
  using assms by (auto simp: subscribe_def entities_valid_def entities_fresh_def split: option.splits)

lemma emit_valid:
  assumes "entities_valid w" "entities_fresh w"
  shows "entities_valid (emit ev w) \<and> entities_fresh (emit ev w)"
  using assms by (auto simp: entities_valid_def entities_fresh_def)

end
